theory Spec2Isabelle
  imports Main
begin

section \<open>The key user interface (kui.c): maps, map sets and the matcher context\<close>

text \<open>
  A shallow embedding of \<^verbatim>\<open>cgdb/lib/kui/src/kui.c\<close>. Every C function that the
  properties below talk about is a HOL function of the same name. Conventions:
  \<^item> a C \<^verbatim>\<open>int\<close> is an \<open>int\<close>: the tokens are only compared, and the counters stay far
    below the range of a machine integer;
  \<^item> a zero-terminated \<^verbatim>\<open>int *\<close> array is the \<open>int list\<close> of its cells, terminator
    included; a read at an index outside the list is the fault \<open>Out_Of_Bounds_Read\<close>;
  \<^item> a C function that returns \<^verbatim>\<open>-1\<close> returns \<open>Inl Error\<close>; the other faults stand for
    undefined behaviour of the C program, where no value is returned at all;
  \<^item> \<^verbatim>\<open>malloc\<close> and \<^verbatim>\<open>strdup\<close> are taken to succeed.
\<close>

datatype fault =
    Error                     \<comment> \<open>the C function returns \<^verbatim>\<open>-1\<close>\<close>
  | Out_Of_Bounds_Read        \<comment> \<open>undefined behaviour: an array is read outside its cells\<close>
  | Out_Of_Bounds_Write int   \<comment> \<open>undefined behaviour: \<^verbatim>\<open>bufmax[n]\<close> is written, \<open>n\<close> not in \<open>0..1023\<close>\<close>
  | Invalid_Pointer           \<comment> \<open>undefined behaviour: a null or uninitialised pointer is read\<close>

subsection \<open>struct kui\_map\<close>

record kui_map =
  original_key :: string
  literal_key :: "int list"
  original_value :: string
  literal_value :: "int list"

text \<open>\<^verbatim>\<open>kui_map_get_literal_key\<close>: \<^verbatim>\<open>-1\<close> for a null map, else the array.\<close>

definition kui_map_get_literal_key :: "kui_map option \<Rightarrow> fault + int list" where
  "kui_map_get_literal_key the_map = (case the_map of None \<Rightarrow> Inl Error | Some m \<Rightarrow> Inr (literal_key m))"

subsection \<open>Zero-terminated int arrays: intcmp, intncmp, intlen\<close>

function intcmp_loop :: "int list \<Rightarrow> int list \<Rightarrow> nat \<Rightarrow> fault + int" where
  "intcmp_loop one two i =
     (if i < length one \<and> i < length two then
        (if one ! i = 0 \<and> two ! i = 0 then Inr 0
         else if one ! i = 0 then Inr (- 1)
         else if two ! i = 0 then Inr 1
         else if one ! i < two ! i then Inr (- 1)
         else if one ! i > two ! i then Inr 1
         else intcmp_loop one two (Suc i))
      else Inl Out_Of_Bounds_Read)"
  by pat_completeness auto
termination
  by (relation "measure (\<lambda>(one, two, i). length one - i)") auto

definition intcmp :: "int list \<Rightarrow> int list \<Rightarrow> fault + int" where
  "intcmp one two = intcmp_loop one two 0"

text \<open>
  \<^verbatim>\<open>intncmp\<close>: the loop runs while \<^verbatim>\<open>pos < n\<close>; \<^verbatim>\<open>i\<close> and \<^verbatim>\<open>pos\<close> are incremented
  together, so one counter stands for both. \<^verbatim>\<open>retval\<close> is 0 when the loop ends.
\<close>

function intncmp_loop :: "int list \<Rightarrow> int list \<Rightarrow> int \<Rightarrow> nat \<Rightarrow> fault + int" where
  "intncmp_loop one two n i =
     (if int i < n then
        (if i < length one \<and> i < length two then
           (if one ! i = 0 \<and> two ! i = 0 then Inr 0
            else if one ! i = 0 then Inr (- 1)
            else if two ! i = 0 then Inr 1
            else if one ! i < two ! i then Inr (- 1)
            else if one ! i > two ! i then Inr 1
            else intncmp_loop one two n (Suc i))
         else Inl Out_Of_Bounds_Read)
      else Inr 0)"
  by pat_completeness auto
termination
  by (relation "measure (\<lambda>(one, two, n, i). nat n - i)") auto

definition intncmp :: "int list \<Rightarrow> int list \<Rightarrow> int \<Rightarrow> fault + int" where
  "intncmp one two n = intncmp_loop one two n 0"

function intlen_loop :: "int list \<Rightarrow> nat \<Rightarrow> fault + int" where
  "intlen_loop val len =
     (if len < length val then
        (if val ! len \<noteq> 0 then intlen_loop val (Suc len) else Inr (int len))
      else Inl Out_Of_Bounds_Read)"
  by pat_completeness auto
termination
  by (relation "measure (\<lambda>(val, len). length val - len)") auto

definition intlen :: "int list \<Rightarrow> fault + int" where
  "intlen val = intlen_loop val 0"

text \<open>The read \<^verbatim>\<open>a[i]\<close> of an array cell.\<close>

definition cell :: "int list \<Rightarrow> int \<Rightarrow> fault + int" where
  "cell a i = (if 0 \<le> i \<and> nat i < length a then Inr (a ! nat i) else Inl Out_Of_Bounds_Read)"

declare intcmp_loop.simps [simp del] intncmp_loop.simps [simp del] intlen_loop.simps [simp del]

subsection \<open>struct kui\_map\_set\<close>

datatype kui_map_state = KUI_MAP_FOUND | KUI_MAP_STILL_LOOKING | KUI_MAP_NOT_FOUND | KUI_MAP_ERROR

text \<open>
  Modelled from the spec: \<^verbatim>\<open>std_list\<close> (lib/adt) is not part of the source file.
  The map list is ``a sequence of maps'', the cursor ``a position into \<open>map_list\<close>''
  with the positions \<open>begin\<close> and \<open>end-of-list\<close>. A list is a HOL list; an iterator is
  null or the index of a position; \<open>begin\<close> is index 0 and \<open>end\<close> is the length of the
  list (one past the last map: the code compares iterators with it and tests them for
  null separately). The end position holds no map: \<^verbatim>\<open>std_list_get_data\<close> yields a null
  datum there, and \<^verbatim>\<open>-1\<close> for a null iterator. \<^verbatim>\<open>std_list_find\<close> returns the first
  position whose datum compares equal, else \<open>end\<close> (\<^verbatim>\<open>kui_ms_register_map\<close> tests its
  result against \<open>end\<close>); \<^verbatim>\<open>std_list_remove\<close> unlinks the datum at a position and
  returns null when there is none.
\<close>

datatype std_list_iterator = NULL | Node nat

definition std_list_begin :: "'a list \<Rightarrow> std_list_iterator" where
  "std_list_begin list = Node 0"

definition std_list_end :: "'a list \<Rightarrow> std_list_iterator" where
  "std_list_end list = Node (length list)"

fun std_list_next :: "std_list_iterator \<Rightarrow> std_list_iterator" where
  "std_list_next NULL = NULL"
| "std_list_next (Node i) = Node (Suc i)"

fun std_list_get_data :: "'a list \<Rightarrow> std_list_iterator \<Rightarrow> fault + 'a option" where
  "std_list_get_data list NULL = Inl Error"
| "std_list_get_data list (Node i) = Inr (if i < length list then Some (list ! i) else None)"

fun find_index_from :: "'a list \<Rightarrow> ('a \<Rightarrow> fault + int) \<Rightarrow> nat \<Rightarrow> fault + nat" where
  "find_index_from [] compare i = Inr i"
| "find_index_from (x # xs) compare i =
     (case compare x of
        Inl f \<Rightarrow> Inl f
      | Inr r \<Rightarrow> if r = 0 then Inr i else find_index_from xs compare (Suc i))"

definition std_list_find :: "'a list \<Rightarrow> ('a \<Rightarrow> fault + int) \<Rightarrow> fault + std_list_iterator" where
  "std_list_find list compare =
     (case find_index_from list compare 0 of Inl f \<Rightarrow> Inl f | Inr i \<Rightarrow> Inr (Node i))"

fun std_list_remove :: "'a list \<Rightarrow> std_list_iterator \<Rightarrow> 'a list \<times> std_list_iterator" where
  "std_list_remove list NULL = (list, NULL)"
| "std_list_remove list (Node i) =
     (if i < length list then (take i list @ drop (Suc i) list, Node i) else (list, NULL))"

record kui_map_set =
  map_list :: "kui_map list"
  map_iter :: std_list_iterator
  map_state :: kui_map_state
  is_found :: bool
  map_iter_found :: std_list_iterator

definition kui_map_compare_callback :: "kui_map \<Rightarrow> kui_map \<Rightarrow> fault + int" where
  "kui_map_compare_callback one two = intcmp (literal_key one) (literal_key two)"

text \<open>
  \<^verbatim>\<open>kui_ms_deregister_map\<close>. The code hands the character string \<^verbatim>\<open>key\<close> itself to
  \<^verbatim>\<open>std_list_find\<close> with \<^verbatim>\<open>kui_map_compare_callback\<close>, which reads both arguments as
  \<^verbatim>\<open>struct kui_map *\<close>. Reading a string as a map is undefined in C: the read may
  fault, or yield any number. So the comparison of the string with a map is the
  parameter \<open>compare_raw\<close>, which returns a fault or a number, and the properties of
  the function are stated for every such parameter. The result is the fault of a
  comparison, or the code that the function returns (0, \<^verbatim>\<open>-1\<close> or \<^verbatim>\<open>-2\<close>) with the map
  list as the call leaves it. The function writes no other field of the map set; what
  the matcher's iterators point to after an unlink is not modelled (a pass sets them
  anew before it reads them).
\<close>

definition kui_ms_deregister_map ::
    "(string \<Rightarrow> kui_map \<Rightarrow> fault + int) \<Rightarrow> kui_map_set \<Rightarrow> string
       \<Rightarrow> fault + int \<times> kui_map list" where
  "kui_ms_deregister_map compare_raw kui_ms key =
     (case std_list_find (map_list kui_ms) (compare_raw key) of
        Inl f \<Rightarrow> Inl f
      | Inr iter \<Rightarrow>
          if iter = NULL then Inr (- 1, map_list kui_ms)
          else if iter = std_list_begin (map_list kui_ms) then Inr (- 2, map_list kui_ms)
          else (case std_list_remove (map_list kui_ms) iter of
                  (list, iter') \<Rightarrow>
                    if iter' = NULL then Inr (- 1, list) else Inr (0, list)))"

definition kui_ms_reset_state :: "kui_map_set \<Rightarrow> kui_map_set" where
  "kui_ms_reset_state kui_ms =
     kui_ms\<lparr>map_iter := std_list_begin (map_list kui_ms),
            map_state := KUI_MAP_STILL_LOOKING,
            is_found := False,
            map_iter_found := NULL\<rparr>"

definition kui_ms_get_state :: "kui_map_set \<Rightarrow> kui_map_state" where
  "kui_ms_get_state kui_ms = map_state kui_ms"

definition kui_ms_finalize_state :: "kui_map_set \<Rightarrow> kui_map_set" where
  "kui_ms_finalize_state kui_ms =
     (if is_found kui_ms
      then kui_ms\<lparr>map_state := KUI_MAP_FOUND, map_iter := map_iter_found kui_ms\<rparr>
      else kui_ms)"

text \<open>
  \<^verbatim>\<open>kui_ms_update_state\<close>, in two parts: the \<^verbatim>\<open>for\<close> loop that moves \<^verbatim>\<open>map_iter\<close>
  (``Start the searching''), which also leaves the pointer \<^verbatim>\<open>int_cur\<close> behind
  (\<open>None\<close> while it is not yet assigned), and the function itself.
\<close>

function kui_ms_update_state_search ::
    "kui_map_set \<Rightarrow> int list \<Rightarrow> int \<Rightarrow> int \<Rightarrow> int list option
       \<Rightarrow> fault + kui_map_set \<times> int list option" where
  "kui_ms_update_state_search kui_ms int_matched key position int_cur =
     (if map_iter kui_ms \<noteq> std_list_end (map_list kui_ms) then
        (case std_list_get_data (map_list kui_ms) (map_iter kui_ms) of
           Inl f \<Rightarrow> Inl f
         | Inr data \<Rightarrow>
        (case kui_map_get_literal_key data of
           Inl f \<Rightarrow> Inl f
         | Inr cur \<Rightarrow>
        (case intncmp int_matched cur position of
           Inl f \<Rightarrow> Inl f
         | Inr strncmp_return_value \<Rightarrow>
             if strncmp_return_value \<noteq> 0
             then Inr (kui_ms\<lparr>map_state := KUI_MAP_NOT_FOUND\<rparr>, Some cur)
             else (case cell cur position of
                     Inl f \<Rightarrow> Inl f
                   | Inr c \<Rightarrow>
                       if c > key then Inr (kui_ms\<lparr>map_state := KUI_MAP_NOT_FOUND\<rparr>, Some cur)
                       else if c = key
                       then Inr (kui_ms\<lparr>map_state := KUI_MAP_STILL_LOOKING\<rparr>, Some cur)
                       else kui_ms_update_state_search
                              (kui_ms\<lparr>map_iter := std_list_next (map_iter kui_ms)\<rparr>)
                              int_matched key position (Some cur)))))
      else Inr (kui_ms, int_cur))"
  by pat_completeness auto
termination
proof (relation "measure (\<lambda>(kui_ms, int_matched, key, position, int_cur).
          length (map_list kui_ms) - (case map_iter kui_ms of NULL \<Rightarrow> 0 | Node i \<Rightarrow> i))",
       goal_cases)
  case 1
  show ?case by simp
next
  case (2 kui_ms int_matched key position int_cur data cur r c)
  then show ?case
    by (cases "map_iter kui_ms")
       (auto simp: kui_map_get_literal_key_def split: if_splits option.splits)
qed

declare kui_ms_update_state_search.simps [simp del]

definition kui_ms_update_state :: "kui_map_set \<Rightarrow> int \<Rightarrow> int \<Rightarrow> fault + kui_map_set" where
  "kui_ms_update_state kui_ms key position =
     (if position < 0 then Inl Error
      else if key < 0 then Inl Error
      else if map_state kui_ms \<noteq> KUI_MAP_STILL_LOOKING then Inl Error
      else
        (case std_list_get_data (map_list kui_ms) (map_iter kui_ms) of
           Inl f \<Rightarrow> Inl f
         | Inr data \<Rightarrow>
        (case kui_map_get_literal_key data of
           Inl f \<Rightarrow> Inl f
         | Inr int_matched \<Rightarrow>
        (case kui_ms_update_state_search kui_ms int_matched key position None of
           Inl f \<Rightarrow> Inl f
         | Inr (kui_ms1, int_cur) \<Rightarrow>
             if map_state kui_ms1 = KUI_MAP_NOT_FOUND then Inr kui_ms1
             else if map_iter kui_ms1 = std_list_end (map_list kui_ms1)
             then Inr (kui_ms1\<lparr>map_state := KUI_MAP_NOT_FOUND\<rparr>)
             else
               (case int_cur of
                  None \<Rightarrow> Inl Invalid_Pointer
                | Some cur \<Rightarrow>
               (case intlen cur of
                  Inl f \<Rightarrow> Inl f
                | Inr cur_length \<Rightarrow>
                    if cur_length \<noteq> position + 1 then Inr kui_ms1
                    else
                      (let kui_ms2 = kui_ms1\<lparr>is_found := True,
                                             map_iter_found := map_iter kui_ms1\<rparr>;
                           iter = std_list_next (map_iter kui_ms2)
                       in if iter = NULL then Inl Error
                          else if iter = std_list_end (map_list kui_ms2)
                          then Inr (kui_ms2\<lparr>map_state := KUI_MAP_FOUND\<rparr>)
                          else
                            (case std_list_get_data (map_list kui_ms2) iter of
                               Inl f \<Rightarrow> Inl f
                             | Inr data' \<Rightarrow>
                            (case kui_map_get_literal_key data' of
                               Inl f \<Rightarrow> Inl f
                             | Inr int_matched' \<Rightarrow>
                            (case intncmp int_matched' cur (position + 1) of
                               Inl f \<Rightarrow> Inl f
                             | Inr r \<Rightarrow>
                                 if r \<noteq> 0 then Inr (kui_ms2\<lparr>map_state := KUI_MAP_FOUND\<rparr>)
                                 else Inr kui_ms2))))))))))"

subsection \<open>struct kuictx\<close>

text \<open>
  The context: the list of map sets, the pushback buffer, and the character source.
  \<^verbatim>\<open>callback\<close> is the read function applied to the context's \<^verbatim>\<open>fd\<close> and \<^verbatim>\<open>ms\<close>: it
  returns a token, \<^verbatim>\<open>0\<close> when no data came within the timeout, or a negative value,
  and leaves the source \<^verbatim>\<open>state_data\<close> in a new state. The map sets of a context are
  taken to be distinct objects.
\<close>

record 's kuictx =
  kui_map_set_list :: "kui_map_set list"
  buffer :: "int list"
  callback :: "'s \<Rightarrow> int \<times> 's"
  state_data :: 's

definition kui_findchar :: "'s kuictx \<Rightarrow> int \<times> 's kuictx" where
  "kui_findchar kctx =
     (case buffer kctx of
        key # rest \<Rightarrow> (key, kctx\<lparr>buffer := rest\<rparr>)
      | [] \<Rightarrow> (case callback kctx (state_data kctx) of
                 (key, s) \<Rightarrow> (key, kctx\<lparr>state_data := s\<rparr>)))"

definition kui_reset_state_data :: "'s kuictx \<Rightarrow> 's kuictx" where
  "kui_reset_state_data kctx =
     kctx\<lparr>kui_map_set_list := map kui_ms_reset_state (kui_map_set_list kctx)\<rparr>"

fun update_each :: "kui_map_set list \<Rightarrow> int \<Rightarrow> int \<Rightarrow> fault + kui_map_set list" where
  "update_each [] key position = Inr []"
| "update_each (map_set # rest) key position =
     (if kui_ms_get_state map_set \<noteq> KUI_MAP_NOT_FOUND then
        (case kui_ms_update_state map_set key position of
           Inl f \<Rightarrow> Inl f
         | Inr map_set' \<Rightarrow>
             (case update_each rest key position of
                Inl f \<Rightarrow> Inl f
              | Inr rest' \<Rightarrow> Inr (map_set' # rest')))
      else
        (case update_each rest key position of
           Inl f \<Rightarrow> Inl f
         | Inr rest' \<Rightarrow> Inr (map_set # rest')))"

definition kui_update_each_list :: "'s kuictx \<Rightarrow> int \<Rightarrow> int \<Rightarrow> fault + 's kuictx" where
  "kui_update_each_list kctx key position =
     (case update_each (kui_map_set_list kctx) key position of
        Inl f \<Rightarrow> Inl f
      | Inr list \<Rightarrow> Inr (kctx\<lparr>kui_map_set_list := list\<rparr>))"

definition kui_should_continue_looking :: "'s kuictx \<Rightarrow> bool" where
  "kui_should_continue_looking kctx =
     list_ex (\<lambda>map_set. kui_ms_get_state map_set = KUI_MAP_STILL_LOOKING) (kui_map_set_list kctx)"

definition kui_update_list_state :: "'s kuictx \<Rightarrow> 's kuictx" where
  "kui_update_list_state kctx =
     kctx\<lparr>kui_map_set_list := map kui_ms_finalize_state (kui_map_set_list kctx)\<rparr>"

text \<open>
  \<^verbatim>\<open>kui_was_map_found\<close>: the pair of \<^verbatim>\<open>*was_map_found\<close> and \<^verbatim>\<open>*the_map_found\<close>; the
  pointer is \<open>None\<close> while it is unassigned or null.
\<close>

fun was_map_found_each ::
    "kui_map_set list \<Rightarrow> bool \<Rightarrow> kui_map option \<Rightarrow> fault + bool \<times> kui_map option" where
  "was_map_found_each [] was_map_found the_map_found = Inr (was_map_found, the_map_found)"
| "was_map_found_each (map_set # rest) was_map_found the_map_found =
     (if kui_ms_get_state map_set = KUI_MAP_FOUND then
        (case std_list_get_data (map_list map_set) (map_iter map_set) of
           Inl f \<Rightarrow> Inl f
         | Inr data \<Rightarrow> was_map_found_each rest True data)
      else was_map_found_each rest was_map_found the_map_found)"

definition kui_was_map_found :: "'s kuictx \<Rightarrow> fault + bool \<times> kui_map option" where
  "kui_was_map_found kctx = was_map_found_each (kui_map_set_list kctx) False None"

text \<open>
  \<^verbatim>\<open>int bufmax[1024]\<close> is a function from the index to the cell; its bound is checked
  where the code indexes it. The array is not initialised: its first contents are a
  parameter of \<^verbatim>\<open>kui_findkey\<close>.
\<close>

definition bufmax_cell :: "(nat \<Rightarrow> int) \<Rightarrow> int \<Rightarrow> fault + int" where
  "bufmax_cell bufmax j =
     (if 0 \<le> j \<and> j < 1024 then Inr (bufmax (nat j)) else Inl Out_Of_Bounds_Read)"

text \<open>The loop \<^verbatim>\<open>for ( j = position ; j >= i; --j )\<close> of \<^verbatim>\<open>kui_update_buffer\<close>.\<close>

function prepend_extra :: "(nat \<Rightarrow> int) \<Rightarrow> int \<Rightarrow> int \<Rightarrow> int list \<Rightarrow> fault + int list" where
  "prepend_extra bufmax i j buf =
     (if j \<ge> i then
        (case bufmax_cell bufmax j of
           Inl f \<Rightarrow> Inl f
         | Inr val \<Rightarrow> prepend_extra bufmax i (j - 1) (val # buf))
      else Inr buf)"
  by pat_completeness auto
termination
  by (relation "measure (\<lambda>(bufmax, i, j, buf). nat (j - i + 1))") auto

text \<open>The loop \<^verbatim>\<open>for ( i = length-1; i >= 0; --i )\<close> of \<^verbatim>\<open>kui_update_buffer\<close>.\<close>

function prepend_value :: "int list \<Rightarrow> int \<Rightarrow> int list \<Rightarrow> fault + int list" where
  "prepend_value literal i buf =
     (if i \<ge> 0 then
        (case cell literal i of
           Inl f \<Rightarrow> Inl f
         | Inr val \<Rightarrow> prepend_value literal (i - 1) (val # buf))
      else Inr buf)"
  by pat_completeness auto
termination
  by (relation "measure (\<lambda>(literal, i, buf). nat (i + 1))") auto

declare prepend_extra.simps [simp del] prepend_value.simps [simp del]

definition kui_update_buffer ::
    "'s kuictx \<Rightarrow> kui_map option \<Rightarrow> bool \<Rightarrow> int \<Rightarrow> (nat \<Rightarrow> int) \<Rightarrow> int
       \<Rightarrow> fault + int \<times> 's kuictx" where
  "kui_update_buffer kctx the_map_found map_was_found position bufmax key =
     (case (if map_was_found then
              (case the_map_found of
                 None \<Rightarrow> Inl Invalid_Pointer
               | Some m \<Rightarrow> (case intlen (literal_key m) of
                              Inl f \<Rightarrow> Inl f
                            | Inr i \<Rightarrow> Inr (i, key)))
            else Inr (1, bufmax 0)) of
        Inl f \<Rightarrow> Inl f
      | Inr (i, key') \<Rightarrow>
     (case prepend_extra bufmax i position (buffer kctx) of
        Inl f \<Rightarrow> Inl f
      | Inr buf \<Rightarrow>
          if map_was_found then
            (case the_map_found of
               None \<Rightarrow> Inl Invalid_Pointer
             | Some m \<Rightarrow>
            (case intlen (literal_value m) of
               Inl f \<Rightarrow> Inl f
             | Inr len \<Rightarrow>
            (case prepend_value (literal_value m) (len - 1) buf of
               Inl f \<Rightarrow> Inl f
             | Inr buf' \<Rightarrow> Inr (key', kctx\<lparr>buffer := buf'\<rparr>))))
          else Inr (key', kctx\<lparr>buffer := buf\<rparr>)))"

text \<open>
  The main loop of \<^verbatim>\<open>kui_findkey\<close>: it returns the context, \<^verbatim>\<open>position\<close> and \<^verbatim>\<open>bufmax\<close>
  as they are when the loop is left.
\<close>

function kui_findkey_loop ::
    "'s kuictx \<Rightarrow> int \<Rightarrow> (nat \<Rightarrow> int) \<Rightarrow> fault + 's kuictx \<times> int \<times> (nat \<Rightarrow> int)" where
  "kui_findkey_loop kctx position bufmax =
     (case kui_findchar kctx of
        (key, kctx1) \<Rightarrow>
          if key = 0 then Inr (kctx1, position, bufmax)
          else if position + 1 < 0 \<or> position + 1 \<ge> 1024
          then Inl (Out_Of_Bounds_Write (position + 1))
          else
            (case kui_update_each_list kctx1 key (position + 1) of
               Inl f \<Rightarrow> Inl f
             | Inr kctx2 \<Rightarrow>
                 if \<not> kui_should_continue_looking kctx2
                 then Inr (kctx2, position + 1, bufmax(nat (position + 1) := key))
                 else kui_findkey_loop kctx2 (position + 1) (bufmax(nat (position + 1) := key))))"
  by pat_completeness auto
termination
  by (relation "measure (\<lambda>(kctx, position, bufmax). nat (1024 - position))") auto

declare kui_findkey_loop.simps [simp del]

definition kui_findkey :: "(nat \<Rightarrow> int) \<Rightarrow> 's kuictx \<Rightarrow> fault + int \<times> bool \<times> 's kuictx" where
  "kui_findkey bufmax0 kctx =
     (case kui_findkey_loop (kui_reset_state_data kctx) (- 1) bufmax0 of
        Inl f \<Rightarrow> Inl f
      | Inr (kctx1, position, bufmax) \<Rightarrow>
     (case kui_was_map_found (kui_update_list_state kctx1) of
        Inl f \<Rightarrow> Inl f
      | Inr (was_map_found, the_map_found) \<Rightarrow>
     (case kui_update_buffer (kui_update_list_state kctx1) the_map_found was_map_found
             position bufmax 0 of
        Inl f \<Rightarrow> Inl f
      | Inr (key, kctx3) \<Rightarrow> Inr (key, was_map_found, kctx3))))"

text \<open>
  \<^verbatim>\<open>kui_getkey\<close>: the \<^verbatim>\<open>do ... while ( map_found == 1 )\<close> loop may run forever, so the
  function is partial: \<open>None\<close> is ``does not return''. \<open>Some (Inl Error)\<close> is the return
  value \<^verbatim>\<open>-1\<close>, \<open>Some (Inr (key, kctx))\<close> any other return value with the context left
  behind. The array \<^verbatim>\<open>bufmax\<close> is a local variable of \<^verbatim>\<open>kui_findkey\<close> that the code never
  initialises: what a pass finds in it is not determined by the program (a compiled
  program usually finds the cells as an earlier pass left them). The parameter
  \<open>bufmax0\<close> stands for these contents and is handed to each pass of one call; the
  properties below are stated for every \<open>bufmax0\<close>, and no pass in them reads a cell
  that it has not written, except where the property is about such a read.
\<close>

partial_function (option) kui_getkey ::
    "(nat \<Rightarrow> int) \<Rightarrow> 's kuictx \<Rightarrow> (fault + int \<times> 's kuictx) option" where
  "kui_getkey bufmax0 kctx =
     (case kui_findkey bufmax0 kctx of
        Inl f \<Rightarrow> Some (Inl f)
      | Inr (key, map_found, kctx') \<Rightarrow>
          if key = - 1 then Some (Inl Error)
          else if map_found then kui_getkey bufmax0 kctx'
          else Some (Inr (key, kctx')))"

declare kui_getkey.simps [code]

definition kui_cangetkey :: "'s kuictx \<Rightarrow> int" where
  "kui_cangetkey kctx = (if length (buffer kctx) > 0 then 1 else 0)"

subsection \<open>The vocabulary of the specification\<close>

text \<open>
  A key sequence is the finite list of tokens that a zero-terminated array holds before
  its first zero. \<open>token_at C p\<close> is the specification's \<open>C[position]\<close>: the token at
  that position, or the terminator behind the last token. Two arrays share their first
  \<open>n\<close> tokens when the prefixes of that length agree (the specification's
  \<open>cmpn(A, C, n) = 0\<close>).
\<close>

definition zero_terminated :: "int list \<Rightarrow> bool" where
  "zero_terminated a = (0 \<in> set a)"

definition tokens :: "int list \<Rightarrow> int list" where
  "tokens a = takeWhile (\<lambda>t. t \<noteq> 0) a"

definition token_at :: "int list \<Rightarrow> nat \<Rightarrow> int" where
  "token_at C p = (if p < length (tokens C) then tokens C ! p else 0)"

definition shares_prefix :: "nat \<Rightarrow> int list \<Rightarrow> int list \<Rightarrow> bool" where
  "shares_prefix n A C = (take n (tokens A) = take n (tokens C))"

text \<open>
  The map list is sorted by \<open>literal_key\<close> when the comparator of the code,
  \<^verbatim>\<open>kui_map_compare_callback\<close>, puts no map before an earlier one.
\<close>

definition sorted_by_literal_key :: "kui_map list \<Rightarrow> bool" where
  "sorted_by_literal_key list =
     sorted_wrt (\<lambda>one two. case kui_map_compare_callback one two of
                              Inl f \<Rightarrow> False | Inr r \<Rightarrow> r \<le> 0) list"

definition well_formed_keys :: "kui_map list \<Rightarrow> bool" where
  "well_formed_keys list = list_all (\<lambda>m. zero_terminated (literal_key m)) list"

text \<open>
  The update algorithm in the words of the specification. The walk visits the
  candidates from the cursor on, with the anchor \<open>A\<close>:
  \<^enum> the candidate does not share the first \<open>position\<close> tokens with \<open>A\<close>: not found, stop;
  \<^enum> its token at \<open>position\<close> is greater than the input token: not found, stop;
  \<^enum> its token at \<open>position\<close> is the input token: it survives, stop, still looking;
  \<^enum> else skip it.
  The walk returns the state and the cursor. After it, a cursor at the end of the list
  is not found; a survivor of length \<open>position + 1\<close> latches \<open>is_found\<close> and
  \<open>found_cursor\<close>, and then the state is found at once when no following candidate shares
  the survivor's first \<open>position + 1\<close> tokens.
\<close>

fun spec_walk :: "int list \<Rightarrow> int \<Rightarrow> nat \<Rightarrow> kui_map list \<Rightarrow> nat \<Rightarrow> kui_map_state \<times> nat" where
  "spec_walk A token position [] cursor = (KUI_MAP_STILL_LOOKING, cursor)"
| "spec_walk A token position (m # rest) cursor =
     (if \<not> shares_prefix position A (literal_key m) then (KUI_MAP_NOT_FOUND, cursor)
      else if token_at (literal_key m) position > token then (KUI_MAP_NOT_FOUND, cursor)
      else if token_at (literal_key m) position = token then (KUI_MAP_STILL_LOOKING, cursor)
      else spec_walk A token position rest (Suc cursor))"

definition spec_update :: "kui_map_set \<Rightarrow> nat \<Rightarrow> int \<Rightarrow> nat \<Rightarrow> kui_map_set" where
  "spec_update ms c token position =
     (case spec_walk (literal_key (map_list ms ! c)) token position
             (drop c (map_list ms)) c of
        (state, cursor) \<Rightarrow>
          if state = KUI_MAP_NOT_FOUND \<or> cursor = length (map_list ms)
          then ms\<lparr>map_iter := Node cursor, map_state := KUI_MAP_NOT_FOUND\<rparr>
          else if length (tokens (literal_key (map_list ms ! cursor))) = position + 1
          then ms\<lparr>map_iter := Node cursor,
                  map_state :=
                    (if list_all (\<lambda>m. \<not> shares_prefix (position + 1)
                                         (literal_key (map_list ms ! cursor)) (literal_key m))
                          (drop (Suc cursor) (map_list ms))
                     then KUI_MAP_FOUND else KUI_MAP_STILL_LOOKING),
                  is_found := True,
                  map_iter_found := Node cursor\<rparr>
          else ms\<lparr>map_iter := Node cursor, map_state := KUI_MAP_STILL_LOOKING\<rparr>)"

text \<open>The lexicographic order on key sequences: a proper prefix comes first.\<close>

fun lex_le :: "int list \<Rightarrow> int list \<Rightarrow> bool" where
  "lex_le [] ys = True"
| "lex_le (x # xs) [] = False"
| "lex_le (x # xs) (y # ys) = (x < y \<or> (x = y \<and> lex_le xs ys))"

subsection \<open>Sequences of calls\<close>

text \<open>
  A sequence of calls of \<^verbatim>\<open>kui_ms_update_state\<close> on one map set, each with its token
  and position; the sequence goes on while the calls return 0.
\<close>

fun update_calls :: "kui_map_set \<Rightarrow> (int \<times> int) list \<Rightarrow> fault + kui_map_set" where
  "update_calls kui_ms [] = Inr kui_ms"
| "update_calls kui_ms ((key, position) # calls) =
     (case kui_ms_update_state kui_ms key position of
        Inl f \<Rightarrow> Inl f
      | Inr kui_ms' \<Rightarrow> update_calls kui_ms' calls)"

text \<open>
  The calls that a pass makes for one map set: the tokens \<open>ts\<close>, one call each, at the
  positions \<open>p\<close>, \<open>p + 1\<close>, ... (\<^verbatim>\<open>kui_findkey\<close> starts at 0 and counts up).
\<close>

definition fed :: "int list \<Rightarrow> nat \<Rightarrow> (int \<times> int) list" where
  "fed ts p = zip ts (map int [p..<p + length ts])"

text \<open>
  What the tokens fed say about the keys of a map list: some key was typed completely
  (a key that is not empty and is a prefix of the tokens), or the tokens are the
  beginning of some key.
\<close>

definition some_key_matched :: "kui_map list \<Rightarrow> int list \<Rightarrow> bool" where
  "some_key_matched l ts =
     list_ex (\<lambda>m. tokens (literal_key m) \<noteq> [] \<and>
                   take (length (tokens (literal_key m))) ts = tokens (literal_key m)) l"

definition some_key_extends :: "kui_map list \<Rightarrow> int list \<Rightarrow> bool" where
  "some_key_extends l ts =
     list_ex (\<lambda>m. take (length ts) (tokens (literal_key m)) = ts) l"

text \<open>
  The invariant of a map set with map list \<open>l\<close> after the tokens \<open>ts\<close>: while the state is
  not \<open>NOT_FOUND\<close> the cursor is at the first map whose key begins with \<open>ts\<close>; the state
  is \<open>NOT_FOUND\<close> only when no key begins with \<open>ts\<close>; and \<open>is_found\<close> is latched exactly
  when some key was typed completely.
\<close>

definition key_at :: "kui_map list \<Rightarrow> nat \<Rightarrow> int list" where
  "key_at l j = tokens (literal_key (l ! j))"

definition matcher_inv :: "kui_map list \<Rightarrow> int list \<Rightarrow> kui_map_set \<Rightarrow> bool" where
  "matcher_inv l ts ms \<longleftrightarrow>
     map_list ms = l \<and> map_state ms \<noteq> KUI_MAP_ERROR \<and>
     (map_state ms \<noteq> KUI_MAP_NOT_FOUND \<longrightarrow>
        (\<exists>c. map_iter ms = Node c \<and> c < length l \<and> take (length ts) (key_at l c) = ts \<and>
             (\<forall>j<c. take (length ts) (key_at l j) \<noteq> ts))) \<and>
     (map_state ms = KUI_MAP_NOT_FOUND \<longrightarrow>
        (\<forall>j<length l. take (length ts) (key_at l j) \<noteq> ts)) \<and>
     (is_found ms \<longleftrightarrow>
        (\<exists>j<length l. key_at l j \<noteq> [] \<and> take (length (key_at l j)) ts = key_at l j)) \<and>
     (map_state ms = KUI_MAP_FOUND \<longrightarrow> is_found ms)"

text \<open>
  Successive calls of \<^verbatim>\<open>kui_getkey\<close> on one context: the keys they return, up to the
  first call that returns \<^verbatim>\<open>-1\<close>; \<open>None\<close> when one of them does not return.
\<close>

fun kui_getkeys :: "nat \<Rightarrow> (nat \<Rightarrow> int) \<Rightarrow> 's kuictx \<Rightarrow> (fault + int) list option" where
  "kui_getkeys 0 bufmax0 kctx = Some []"
| "kui_getkeys (Suc n) bufmax0 kctx =
     (case kui_getkey bufmax0 kctx of
        None \<Rightarrow> None
      | Some (Inl f) \<Rightarrow> Some [Inl f]
      | Some (Inr (key, kctx')) \<Rightarrow>
          (case kui_getkeys n bufmax0 kctx' of
             None \<Rightarrow> None
           | Some keys \<Rightarrow> Some (Inr key # keys)))"

subsection \<open>Sources, maps and contexts used as examples\<close>

text \<open>
  A character source that hands out the tokens of a list, one per read, and then
  reports ``no data within the timeout'' for ever; and one that never runs dry.
\<close>

definition list_source :: "int list \<Rightarrow> int \<times> int list" where
  "list_source input = (case input of [] \<Rightarrow> (0, []) | key # rest \<Rightarrow> (key, rest))"

definition endless_source :: "int \<Rightarrow> unit \<Rightarrow> int \<times> unit" where
  "endless_source key u = (key, ())"

text \<open>
  A map set as \<^verbatim>\<open>kui_ms_create\<close> and \<^verbatim>\<open>kui_ms_register_map\<close> leave it: the maps in
  order; the matcher fields are set by \<^verbatim>\<open>kui_ms_reset_state\<close> before they are read.
\<close>

definition map_set_of :: "kui_map list \<Rightarrow> kui_map_set" where
  "map_set_of maps =
     \<lparr>map_list = maps, map_iter = NULL, map_state = KUI_MAP_NOT_FOUND,
      is_found = False, map_iter_found = NULL\<rparr>"

definition context_of :: "kui_map_set list \<Rightarrow> int list \<Rightarrow> int list kuictx" where
  "context_of map_sets input =
     \<lparr>kui_map_set_list = map_sets, buffer = [], callback = list_source, state_data = input\<rparr>"

text \<open>The maps \<open>a \<rightarrow> X\<close>, \<open>abc \<rightarrow> Y\<close>, \<open>a \<rightarrow> a\<close> and \<open>b \<rightarrow> Y\<close>; \<open>a\<close> is 97, \<open>X\<close> is 88.\<close>

definition map_a_X :: kui_map where
  "map_a_X = \<lparr>original_key = ''a'', literal_key = [97, 0],
              original_value = ''X'', literal_value = [88, 0]\<rparr>"

definition map_abc_Y :: kui_map where
  "map_abc_Y = \<lparr>original_key = ''abc'', literal_key = [97, 98, 99, 0],
                original_value = ''Y'', literal_value = [89, 0]\<rparr>"

definition map_a_a :: kui_map where
  "map_a_a = \<lparr>original_key = ''a'', literal_key = [97, 0],
              original_value = ''a'', literal_value = [97, 0]\<rparr>"

definition map_b_Y :: kui_map where
  "map_b_Y = \<lparr>original_key = ''b'', literal_key = [98, 0],
              original_value = ''Y'', literal_value = [89, 0]\<rparr>"

text \<open>A map whose key is the letter \<open>a\<close> typed 1025 times.\<close>

definition map_long :: kui_map where
  "map_long = \<lparr>original_key = replicate 1025 CHR ''a'',
               literal_key = replicate 1025 97 @ [0],
               original_value = ''X'', literal_value = [88, 0]\<rparr>"

definition context_long :: "unit kuictx" where
  "context_long =
     \<lparr>kui_map_set_list = [map_set_of [map_long]], buffer = [],
      callback = endless_source 97, state_data = ()\<rparr>"

section \<open>Properties\<close>

subsection \<open>Zero-terminated arrays and their key sequences\<close>

lemma tokens_length_lt: "zero_terminated a \<Longrightarrow> length (tokens a) < length a"
proof -
  assume "zero_terminated a"
  then have "tokens a \<noteq> a"
    unfolding zero_terminated_def tokens_def
    by (metis (mono_tags, lifting) set_takeWhileD)
  moreover have "length (tokens a) \<le> length a"
    by (simp add: tokens_def length_takeWhile_le)
  ultimately show ?thesis
    unfolding tokens_def
    by (metis le_neq_implies_less takeWhile_eq_take take_all_iff order_refl)
qed

lemma tokens_nth: "i < length (tokens a) \<Longrightarrow> a ! i = tokens a ! i \<and> tokens a ! i \<noteq> 0 \<and> i < length a"
  unfolding tokens_def
  by (metis (mono_tags, lifting) length_takeWhile_le nth_mem order_less_le_trans set_takeWhileD takeWhile_nth)

lemma tokens_end: "zero_terminated a \<Longrightarrow> a ! length (tokens a) = 0"
  using tokens_length_lt[of a] nth_length_takeWhile[of "\<lambda>t. t \<noteq> 0" a]
  by (simp add: tokens_def)

lemma intlen_loop_tokens:
  "zero_terminated a \<Longrightarrow> len \<le> length (tokens a) \<Longrightarrow>
     intlen_loop a len = Inr (int (length (tokens a)))"
proof (induction "length (tokens a) - len" arbitrary: len)
  case 0
  then have "len = length (tokens a)" by simp
  with 0 show ?case
    using tokens_length_lt[of a] tokens_end[of a]
    by (subst intlen_loop.simps) simp
next
  case (Suc n)
  then have lt: "len < length (tokens a)" by simp
  then have "a ! len \<noteq> 0" "len < length a" using tokens_nth[of len a] by auto
  moreover have "intlen_loop a (Suc len) = Inr (int (length (tokens a)))"
    using Suc lt by (intro Suc.hyps) auto
  ultimately show ?case
    by (subst intlen_loop.simps) simp
qed

lemma intlen_tokens: "zero_terminated a \<Longrightarrow> intlen a = Inr (int (length (tokens a)))"
  by (simp add: intlen_def intlen_loop_tokens)

lemma cell_tokens:
  "zero_terminated a \<Longrightarrow> p \<le> length (tokens a) \<Longrightarrow> cell a (int p) = Inr (token_at a p)"
  using tokens_length_lt[of a] tokens_nth[of p a] tokens_end[of a]
  by (auto simp: cell_def token_at_def)


lemma take_neq_by_length:
  "i = length xs \<Longrightarrow> i < length ys \<Longrightarrow> i < n \<Longrightarrow> take n xs \<noteq> take n ys"
proof
  assume a: "i = length xs" "i < length ys" "i < n" and e: "take n xs = take n ys"
  from e have "length (take n xs) = length (take n ys)" by simp
  with a show False by simp
qed

lemma take_neq_by_nth:
  "i < length xs \<Longrightarrow> i < length ys \<Longrightarrow> i < n \<Longrightarrow> xs ! i \<noteq> ys ! i \<Longrightarrow> take n xs \<noteq> take n ys"
proof
  assume a: "i < length xs" "i < length ys" "i < n" "xs ! i \<noteq> ys ! i" and e: "take n xs = take n ys"
  from e have "take n xs ! i = take n ys ! i" by simp
  with a show False by simp
qed

lemma intncmp_loop_tokens:
  assumes "zero_terminated a" "zero_terminated b"
  shows "i \<le> length (tokens a) \<Longrightarrow> i \<le> length (tokens b) \<Longrightarrow>
         take i (tokens a) = take i (tokens b) \<Longrightarrow>
         \<exists>r. intncmp_loop a b n i = Inr r \<and>
             (r = 0 \<longleftrightarrow> take (nat n) (tokens a) = take (nat n) (tokens b))"
proof (induction "length (tokens a) - i" arbitrary: i rule: less_induct)
  case less
  let ?ta = "tokens a" and ?tb = "tokens b"
  show ?case
  proof (cases "int i < n")
    case False
    then have le: "nat n \<le> i" by simp
    from less.prems have "take (nat n) (take i ?ta) = take (nat n) (take i ?tb)" by simp
    with le have "take (nat n) ?ta = take (nat n) ?tb" by (simp add: min_def)
    with False show ?thesis
      by (subst intncmp_loop.simps) simp
  next
    case True
    then have in_n: "i < nat n" by simp
    have bnd: "i < length a" "i < length b"
      using less.prems tokens_length_lt[OF assms(1)] tokens_length_lt[OF assms(2)] by auto
    consider (both_end) "i = length ?ta" "i = length ?tb"
      | (a_end) "i = length ?ta" "i < length ?tb"
      | (b_end) "i < length ?ta" "i = length ?tb"
      | (inside) "i < length ?ta" "i < length ?tb"
      using less.prems by linarith
    then show ?thesis
    proof cases
      case both_end
      then have "a ! i = 0" "b ! i = 0"
      using tokens_end[OF assms(1)] tokens_end[OF assms(2)] by auto
      moreover have "?ta = ?tb" using both_end less.prems by simp
      ultimately show ?thesis using True bnd
        by (subst intncmp_loop.simps) simp
    next
      case a_end
      then have "a ! i = 0" "b ! i \<noteq> 0" using tokens_end[OF assms(1)] tokens_nth[of i b] by auto
      moreover have "take (nat n) ?ta \<noteq> take (nat n) ?tb"
        using a_end in_n by (intro take_neq_by_length[of i]) auto
      ultimately show ?thesis using True bnd
        by (subst intncmp_loop.simps) simp
    next
      case b_end
      then have "a ! i \<noteq> 0" "b ! i = 0" using tokens_end[OF assms(2)] tokens_nth[of i a] by auto
      moreover have "take (nat n) ?tb \<noteq> take (nat n) ?ta"
        using b_end in_n by (intro take_neq_by_length[of i]) auto
      ultimately show ?thesis using True bnd
        by (subst intncmp_loop.simps) auto
    next
      case inside
      then have nz: "a ! i = ?ta ! i" "b ! i = ?tb ! i" "a ! i \<noteq> 0" "b ! i \<noteq> 0"
        using tokens_nth[of i a] tokens_nth[of i b] by auto
      show ?thesis
      proof (cases "?ta ! i = ?tb ! i")
        case False
        then have "take (nat n) ?ta \<noteq> take (nat n) ?tb"
          using inside in_n by (intro take_neq_by_nth[of i]) auto
        with False nz True bnd show ?thesis
          by (subst intncmp_loop.simps) auto
      next
        case eq: True
        have "take (Suc i) ?ta = take (Suc i) ?tb"
          using inside eq less.prems by (simp add: take_Suc_conv_app_nth)
        then have "\<exists>r. intncmp_loop a b n (Suc i) = Inr r \<and>
             (r = 0 \<longleftrightarrow> take (nat n) ?ta = take (nat n) ?tb)"
          using inside by (intro less.hyps) auto
        with eq nz True bnd show ?thesis
          by (subst intncmp_loop.simps) auto
      qed
    qed
  qed
qed

lemma intncmp_tokens:
  "zero_terminated a \<Longrightarrow> zero_terminated b \<Longrightarrow>
     \<exists>r. intncmp a b n = Inr r \<and> (r = 0 \<longleftrightarrow> shares_prefix (nat n) a b)"
  unfolding intncmp_def shares_prefix_def
  by (rule intncmp_loop_tokens) auto

lemma lex_le_drop:
  "take i xs = take i ys \<Longrightarrow> i \<le> length xs \<Longrightarrow> i \<le> length ys \<Longrightarrow>
   lex_le xs ys = lex_le (drop i xs) (drop i ys)"
proof (induction i arbitrary: xs ys)
  case 0
  then show ?case by simp
next
  case (Suc i)
  from Suc.prems obtain x xs' y ys' where c: "xs = x # xs'" "ys = y # ys'"
    by (cases xs; cases ys) auto
  with Suc.prems have "x = y" "take i xs' = take i ys'" "i \<le> length xs'" "i \<le> length ys'"
    by auto
  with Suc.IH[of xs' ys'] c show ?case by simp
qed

lemma intcmp_loop_tokens:
  assumes "zero_terminated a" "zero_terminated b"
  shows "i \<le> length (tokens a) \<Longrightarrow> i \<le> length (tokens b) \<Longrightarrow>
         \<exists>r. intcmp_loop a b i = Inr r \<and>
             (r \<le> 0 \<longleftrightarrow> lex_le (drop i (tokens a)) (drop i (tokens b)))"
proof (induction "length (tokens a) - i" arbitrary: i rule: less_induct)
  case less
  let ?ta = "tokens a" and ?tb = "tokens b"
  have bnd: "i < length a" "i < length b"
    using less.prems tokens_length_lt[OF assms(1)] tokens_length_lt[OF assms(2)] by auto
  consider (both_end) "i = length ?ta" "i = length ?tb"
    | (a_end) "i = length ?ta" "i < length ?tb"
    | (b_end) "i < length ?ta" "i = length ?tb"
    | (inside) "i < length ?ta" "i < length ?tb"
    using less.prems by linarith
  then show ?case
  proof cases
    case both_end
    then have "a ! i = 0" "b ! i = 0"
      using tokens_end[OF assms(1)] tokens_end[OF assms(2)] by auto
    with both_end bnd show ?thesis
      by (subst intcmp_loop.simps) simp
  next
    case a_end
    then have "a ! i = 0" "b ! i \<noteq> 0" using tokens_end[OF assms(1)] tokens_nth[of i b] by auto
    with a_end bnd show ?thesis
      by (subst intcmp_loop.simps) simp
  next
    case b_end
    then have "a ! i \<noteq> 0" "b ! i = 0" using tokens_end[OF assms(2)] tokens_nth[of i a] by auto
    moreover have "drop i ?ta = ?ta ! i # drop (Suc i) ?ta"
      using b_end by (simp add: Cons_nth_drop_Suc)
    ultimately show ?thesis using b_end bnd
      by (subst intcmp_loop.simps) simp
  next
    case inside
    then have nz: "a ! i = ?ta ! i" "b ! i = ?tb ! i" "a ! i \<noteq> 0" "b ! i \<noteq> 0"
      using tokens_nth[of i a] tokens_nth[of i b] by auto
    have dr: "drop i ?ta = ?ta ! i # drop (Suc i) ?ta" "drop i ?tb = ?tb ! i # drop (Suc i) ?tb"
      using inside by (simp_all add: Cons_nth_drop_Suc)
    have "\<exists>r. intcmp_loop a b (Suc i) = Inr r \<and>
             (r \<le> 0 \<longleftrightarrow> lex_le (drop (Suc i) ?ta) (drop (Suc i) ?tb))"
      using inside by (intro less.hyps) auto
    with nz dr bnd show ?thesis
      by (subst intcmp_loop.simps) auto
  qed
qed

lemma intcmp_tokens:
  "zero_terminated a \<Longrightarrow> zero_terminated b \<Longrightarrow>
     \<exists>r. intcmp a b = Inr r \<and> (r \<le> 0 \<longleftrightarrow> lex_le (tokens a) (tokens b))"
  using intcmp_loop_tokens[of a b 0] by (simp add: intcmp_def)

lemma lex_le_between:
  "lex_le xs ys \<Longrightarrow> lex_le ys zs \<Longrightarrow> take (length xs) zs = xs \<Longrightarrow> take (length xs) ys = xs"
proof (induction xs arbitrary: ys zs)
  case Nil
  then show ?case by simp
next
  case (Cons x xs)
  from Cons.prems(1) obtain y ys' where ys: "ys = y # ys'" by (cases ys) auto
  from Cons.prems(3) obtain zs' where zs: "zs = x # zs'" by (cases zs) auto
  from Cons.prems(1,2) ys zs have xy: "x = y" and l1: "lex_le xs ys'" and l2: "lex_le ys' zs'"
    by auto
  from Cons.prems(3) zs have "take (length xs) zs' = xs" by simp
  from Cons.IH[OF l1 l2 this] xy ys show ?case by simp
qed


lemma shares_prefix_length:
  "shares_prefix p A C \<Longrightarrow> p \<le> length (tokens A) \<Longrightarrow> p \<le> length (tokens C)"
proof -
  assume a: "shares_prefix p A C" "p \<le> length (tokens A)"
  then have "length (take p (tokens A)) = length (take p (tokens C))"
    by (simp add: shares_prefix_def)
  with a(2) show ?thesis by simp
qed

lemma spec_walk_bounds:
  "fst (spec_walk A key p cs c) \<in> {KUI_MAP_NOT_FOUND, KUI_MAP_STILL_LOOKING} \<and>
   c \<le> snd (spec_walk A key p cs c) \<and> snd (spec_walk A key p cs c) \<le> c + length cs"
proof (induction cs arbitrary: c)
  case Nil
  show ?case by simp
next
  case (Cons m cs)
  from Cons.IH[of "Suc c"] show ?case by auto
qed

lemma well_formed_nth:
  "well_formed_keys l \<Longrightarrow> i < length l \<Longrightarrow> zero_terminated (literal_key (l ! i))"
  by (simp add: well_formed_keys_def list_all_length)

lemma search_refines:
  assumes wf: "well_formed_keys (map_list ms0)" and ztA: "zero_terminated A"
    and pos: "0 \<le> position" and anchor: "nat position \<le> length (tokens A)"
  shows "map_list ms = map_list ms0 \<Longrightarrow> map_state ms = KUI_MAP_STILL_LOOKING \<Longrightarrow>
         map_iter ms = Node c \<Longrightarrow> c \<le> length (map_list ms) \<Longrightarrow>
         \<exists>ic'. kui_ms_update_state_search ms A key position ic =
                 Inr (ms\<lparr>map_iter := Node (snd (spec_walk A key (nat position) (drop c (map_list ms)) c)),
                         map_state := fst (spec_walk A key (nat position) (drop c (map_list ms)) c)\<rparr>, ic') \<and>
               (snd (spec_walk A key (nat position) (drop c (map_list ms)) c) < length (map_list ms) \<longrightarrow>
                  ic' = Some (literal_key (map_list ms ! snd (spec_walk A key (nat position) (drop c (map_list ms)) c))))"
proof (induction "length (map_list ms) - c" arbitrary: ms c ic)
  case 0
  then have c: "c = length (map_list ms)" by simp
  with 0 show ?case
    by (subst kui_ms_update_state_search.simps) (simp add: std_list_end_def)
next
  case (Suc n)
  let ?l = "map_list ms"
  let ?C = "literal_key (?l ! c)"
  let ?p = "nat position"
  from Suc have lt: "c < length ?l" by simp
  then have dr: "drop c ?l = ?l ! c # drop (Suc c) ?l" by (simp add: Cons_nth_drop_Suc)
  have ztC: "zero_terminated ?C" using wf lt Suc.prems(1) by (simp add: well_formed_nth)
  from intncmp_tokens[OF ztA ztC, of position] obtain r where
    r: "intncmp A ?C position = Inr r" "r = 0 \<longleftrightarrow> shares_prefix ?p A ?C" by blast
  have ne: "map_iter ms \<noteq> std_list_end ?l" using lt Suc.prems by (simp add: std_list_end_def)
  have gd: "std_list_get_data ?l (map_iter ms) = Inr (Some (?l ! c))" using lt Suc.prems by simp
  have same: "\<And>st. ms\<lparr>map_iter := Node c, map_state := st\<rparr> = ms\<lparr>map_state := st\<rparr>"
    using Suc.prems(3) by (cases ms) simp
  show ?case
  proof (cases "r = 0")
    case False
    with r have "\<not> shares_prefix ?p A ?C" by simp
    with False r ne gd dr lt same show ?thesis
      by (subst kui_ms_update_state_search.simps) (simp add: kui_map_get_literal_key_def)
  next
    case True
    with r have sh: "shares_prefix ?p A ?C" by simp
    then have "?p \<le> length (tokens ?C)" using anchor by (rule shares_prefix_length)
    then have cl: "cell ?C position = Inr (token_at ?C ?p)"
      using cell_tokens[OF ztC, of ?p] pos by simp
    consider (gt) "token_at ?C ?p > key" | (eq) "token_at ?C ?p = key" | (lt) "token_at ?C ?p < key"
      by linarith
    then show ?thesis
    proof cases
      case gt
      with True r ne gd dr lt sh cl same show ?thesis
        by (subst kui_ms_update_state_search.simps) (simp add: kui_map_get_literal_key_def)
    next
      case eq
      with True r ne gd dr lt sh cl same show ?thesis
        by (subst kui_ms_update_state_search.simps) (simp add: kui_map_get_literal_key_def)
    next
      case lt
      let ?ms' = "ms\<lparr>map_iter := std_list_next (map_iter ms)\<rparr>"
      have step: "kui_ms_update_state_search ms A key position ic =
                  kui_ms_update_state_search ?ms' A key position (Some ?C)"
        using lt True r ne gd cl
        by (subst kui_ms_update_state_search.simps) (simp add: kui_map_get_literal_key_def)
      have sw: "spec_walk A key ?p (drop c ?l) c = spec_walk A key ?p (drop (Suc c) ?l) (Suc c)"
        using lt sh dr by simp
      have "\<exists>ic'. kui_ms_update_state_search ?ms' A key position (Some ?C) =
                 Inr (?ms'\<lparr>map_iter := Node (snd (spec_walk A key ?p (drop (Suc c) (map_list ?ms')) (Suc c))),
                         map_state := fst (spec_walk A key ?p (drop (Suc c) (map_list ?ms')) (Suc c))\<rparr>, ic') \<and>
               (snd (spec_walk A key ?p (drop (Suc c) (map_list ?ms')) (Suc c)) < length (map_list ?ms') \<longrightarrow>
                  ic' = Some (literal_key (map_list ?ms' ! snd (spec_walk A key ?p (drop (Suc c) (map_list ?ms')) (Suc c)))))"
        using Suc.prems Suc.hyps(2) \<open>c < length ?l\<close>
        by (intro Suc.hyps(1)) auto
      then show ?thesis
        unfolding step sw by simp
    qed
  qed
qed


lemma shares_prefix_sym: "shares_prefix n a b \<Longrightarrow> shares_prefix n b a"
  by (simp add: shares_prefix_def)

lemma sorted_le_tokens:
  assumes "sorted_by_literal_key l" "well_formed_keys l" "i < j" "j < length l"
  shows "lex_le (tokens (literal_key (l ! i))) (tokens (literal_key (l ! j)))"
proof -
  let ?a = "literal_key (l ! i)" and ?b = "literal_key (l ! j)"
  have zt: "zero_terminated ?a" "zero_terminated ?b"
    using assms by (simp_all add: well_formed_nth)
  from intcmp_tokens[OF zt] obtain r where
    r: "intcmp ?a ?b = Inr r" "r \<le> 0 \<longleftrightarrow> lex_le (tokens ?a) (tokens ?b)" by blast
  from assms(1,3,4) have "case kui_map_compare_callback (l ! i) (l ! j) of
                            Inl f \<Rightarrow> False | Inr r \<Rightarrow> r \<le> 0"
    unfolding sorted_by_literal_key_def sorted_wrt_iff_nth_less by blast
  with r show ?thesis by (simp add: kui_map_compare_callback_def)
qed

lemma sorted_contiguous:
  assumes "sorted_by_literal_key l" "well_formed_keys l" "i < j" "j < k" "k < length l"
    and "length (tokens (literal_key (l ! i))) = n"
    and "shares_prefix n (literal_key (l ! i)) (literal_key (l ! k))"
  shows "shares_prefix n (literal_key (l ! i)) (literal_key (l ! j))"
proof -
  let ?x = "tokens (literal_key (l ! i))"
  let ?y = "tokens (literal_key (l ! j))"
  let ?z = "tokens (literal_key (l ! k))"
  have "lex_le ?x ?y" using assms by (intro sorted_le_tokens) auto
  moreover have "lex_le ?y ?z" using assms by (intro sorted_le_tokens) auto
  moreover have "take (length ?x) ?z = ?x" using assms(6,7) by (simp add: shares_prefix_def)
  ultimately have "take (length ?x) ?y = ?x" by (rule lex_le_between)
  with assms(6) show ?thesis by (simp add: shares_prefix_def)
qed

lemma no_following_iff_next:
  assumes "sorted_by_literal_key l" "well_formed_keys l" "Suc cur < length l"
    and "length (tokens (literal_key (l ! cur))) = n"
  shows "list_all (\<lambda>m. \<not> shares_prefix n (literal_key (l ! cur)) (literal_key m)) (drop (Suc cur) l)
         \<longleftrightarrow> \<not> shares_prefix n (literal_key (l ! Suc cur)) (literal_key (l ! cur))"
proof
  assume a: "list_all (\<lambda>m. \<not> shares_prefix n (literal_key (l ! cur)) (literal_key m)) (drop (Suc cur) l)"
  have "drop (Suc cur) l = l ! Suc cur # drop (Suc (Suc cur)) l"
    using assms(3) by (rule Cons_nth_drop_Suc[symmetric])
  with a have "\<not> shares_prefix n (literal_key (l ! cur)) (literal_key (l ! Suc cur))"
    by simp
  then show "\<not> shares_prefix n (literal_key (l ! Suc cur)) (literal_key (l ! cur))"
    using shares_prefix_sym by blast
next
  assume n: "\<not> shares_prefix n (literal_key (l ! Suc cur)) (literal_key (l ! cur))"
  have "\<not> shares_prefix n (literal_key (l ! cur)) (literal_key (drop (Suc cur) l ! k))"
    if k: "k < length (drop (Suc cur) l)" for k
  proof
    assume sh: "shares_prefix n (literal_key (l ! cur)) (literal_key (drop (Suc cur) l ! k))"
    have bound: "Suc cur + k < length l" using k by simp
    have nth: "drop (Suc cur) l ! k = l ! (Suc cur + k)" using bound by simp
    have sh': "shares_prefix n (literal_key (l ! cur)) (literal_key (l ! (Suc cur + k)))"
      using sh unfolding nth .
    have "shares_prefix n (literal_key (l ! cur)) (literal_key (l ! Suc cur))"
    proof (cases k)
      case 0
      with sh' show ?thesis by simp
    next
      case (Suc k')
      then have lt: "Suc cur < Suc cur + k" by simp
      have "cur < Suc cur" by simp
      from sorted_contiguous[OF assms(1,2) this lt bound assms(4) sh'] show ?thesis .
    qed
    with n show False using shares_prefix_sym by blast
  qed
  then show "list_all (\<lambda>m. \<not> shares_prefix n (literal_key (l ! cur)) (literal_key m)) (drop (Suc cur) l)"
    unfolding list_all_length by blast
qed

lemma update_refines:
  assumes sorted: "sorted_by_literal_key (map_list ms)"
    and wf: "well_formed_keys (map_list ms)"
    and st: "map_state ms = KUI_MAP_STILL_LOOKING"
    and it: "map_iter ms = Node c" and c: "c < length (map_list ms)"
    and pos: "0 \<le> position"
    and anchor: "nat position \<le> length (tokens (literal_key (map_list ms ! c)))"
    and key: "0 \<le> key"
  shows "kui_ms_update_state ms key position = Inr (spec_update ms c key (nat position))"
proof -
  define l where "l = map_list ms"
  define A where "A = literal_key (l ! c)"
  define p where "p = nat position"
  define w where "w = spec_walk A key p (drop c l) c"
  define cur where "cur = snd w"
  define C where "C = literal_key (l ! cur)"
  define ms1 where "ms1 = ms\<lparr>map_iter := Node cur, map_state := fst w\<rparr>"
  have ztA: "zero_terminated A" using wf c by (simp add: well_formed_nth A_def l_def)
  from search_refines[OF wf ztA pos, of ms c key None] anchor st it c
  obtain ic' where
    search: "kui_ms_update_state_search ms A key position None = Inr (ms1, ic')"
    and ic': "cur < length l \<longrightarrow> ic' = Some C"
    unfolding A_def l_def p_def w_def cur_def C_def ms1_def by auto
  have gd: "std_list_get_data (map_list ms) (map_iter ms) = Inr (Some (l ! c))"
    using c it by (simp add: l_def)
  have ms1_sel: "map_state ms1 = fst w" "map_iter ms1 = Node cur" "map_list ms1 = l"
    by (simp_all add: ms1_def l_def)
  note unf = kui_ms_update_state_def kui_map_get_literal_key_def ms1_sel std_list_end_def Let_def
  note pre = pos key st gd search[unfolded A_def]
  have bounds: "fst w = KUI_MAP_NOT_FOUND \<or> fst w = KUI_MAP_STILL_LOOKING" "cur \<le> length l"
    using spec_walk_bounds[of A key p "drop c l" c] c by (auto simp: w_def cur_def l_def)
  have su: "spec_update ms c key (nat position) =
     (if fst w = KUI_MAP_NOT_FOUND \<or> cur = length l
          then ms\<lparr>map_iter := Node cur, map_state := KUI_MAP_NOT_FOUND\<rparr>
          else if length (tokens C) = p + 1
          then ms\<lparr>map_iter := Node cur,
                  map_state :=
                    (if list_all (\<lambda>m. \<not> shares_prefix (p + 1) C (literal_key m))
                          (drop (Suc cur) l)
                     then KUI_MAP_FOUND else KUI_MAP_STILL_LOOKING),
                  is_found := True,
                  map_iter_found := Node cur\<rparr>
          else ms\<lparr>map_iter := Node cur, map_state := KUI_MAP_STILL_LOOKING\<rparr>)"
    unfolding spec_update_def A_def l_def p_def w_def cur_def C_def
    by (simp add: case_prod_beta)
  show ?thesis
  proof (cases "fst w = KUI_MAP_NOT_FOUND \<or> cur = length l")
    case True
    then have "kui_ms_update_state ms key position = Inr (ms1\<lparr>map_state := KUI_MAP_NOT_FOUND\<rparr>)"
    proof
      assume nf: "fst w = KUI_MAP_NOT_FOUND"
      then have "ms1\<lparr>map_state := KUI_MAP_NOT_FOUND\<rparr> = ms1" by (simp add: ms1_def)
      moreover have "kui_ms_update_state ms key position = Inr ms1"
        using pre nf by (simp add: unf)
      ultimately show ?thesis by simp
    next
      assume e: "cur = length l"
      show ?thesis
      proof (cases "fst w = KUI_MAP_NOT_FOUND")
        case nf: True
        then have "ms1\<lparr>map_state := KUI_MAP_NOT_FOUND\<rparr> = ms1" by (simp add: ms1_def)
        moreover have "kui_ms_update_state ms key position = Inr ms1"
          using pre nf by (simp add: unf)
        ultimately show ?thesis by simp
      next
        case False
        then show ?thesis
          using pre e by (simp add: unf)
      qed
    qed
    with True show ?thesis
      unfolding su by (simp add: ms1_def)
  next
    case False
    then have sl: "fst w = KUI_MAP_STILL_LOOKING" and lt: "cur < length l"
      using bounds by auto
    have icC: "ic' = Some C" using ic' lt by simp
    have ztC: "zero_terminated C" using wf lt by (simp add: well_formed_nth C_def l_def)
    have len: "intlen C = Inr (int (length (tokens C)))" using ztC by (rule intlen_tokens)
    have leq: "int (length (tokens C)) = position + 1 \<longleftrightarrow> length (tokens C) = p + 1"
      using pos unfolding p_def by linarith
    show ?thesis
    proof (cases "length (tokens C) = p + 1")
      case ne: False
      then have ne': "int (length (tokens C)) \<noteq> position + 1" using leq by simp
      have "kui_ms_update_state ms key position = Inr ms1"
        using pre sl lt icC len ne' by (simp add: unf)
      then show ?thesis
        unfolding su using False sl ne by (simp add: ms1_def)
    next
      case eq: True
      then have eq': "int (length (tokens C)) = position + 1" using leq by simp
      show ?thesis
      proof (cases "Suc cur = length l")
        case last: True
        then have "drop (Suc cur) l = []" by simp
        moreover have "kui_ms_update_state ms key position =
              Inr (ms1\<lparr>is_found := True, map_iter_found := Node cur,
                          map_state := KUI_MAP_FOUND\<rparr>)"
          using pre sl lt icC len eq' last by (simp add: unf)
        ultimately show ?thesis
          unfolding su using False sl eq by (simp add: ms1_def)
      next
        case more: False
        then have lt2: "Suc cur < length l" using lt by simp
        define N where "N = literal_key (l ! Suc cur)"
        have ztN: "zero_terminated N" using wf lt2 by (simp add: well_formed_nth N_def l_def)
        from intncmp_tokens[OF ztN ztC, of "position + 1"] obtain r where
          r: "intncmp N C (position + 1) = Inr r"
             "r = 0 \<longleftrightarrow> shares_prefix (nat (position + 1)) N C" by blast
        have np: "nat (position + 1) = p + 1" using pos by (simp add: p_def)
        have nf: "list_all (\<lambda>m. \<not> shares_prefix (p + 1) C (literal_key m)) (drop (Suc cur) l)
                  \<longleftrightarrow> \<not> shares_prefix (p + 1) N C"
          unfolding C_def N_def
          using sorted wf lt2 eq unfolding l_def C_def by (rule no_following_iff_next)
        have h2: "kui_ms_update_state ms key position =
                  (if r \<noteq> 0
                     then Inr (ms1\<lparr>is_found := True, map_iter_found := Node cur,
                                 map_state := KUI_MAP_FOUND\<rparr>)
                     else Inr (ms1\<lparr>is_found := True, map_iter_found := Node cur\<rparr>))"
          using pre sl lt icC len eq' more lt2 r(1)[unfolded N_def]
          by (simp add: unf)
        have s2: "spec_update ms c key (nat position) =
                  ms\<lparr>map_iter := Node cur,
                  map_state := (if r \<noteq> 0 then KUI_MAP_FOUND else KUI_MAP_STILL_LOOKING),
                  is_found := True,
                  map_iter_found := Node cur\<rparr>"
          unfolding su using False eq nf r(2) np by simp
        show ?thesis
          unfolding h2 s2 using sl by (simp add: ms1_def)
      qed
    qed
  qed
qed

subsection \<open>The update step of a map set\<close>

lemmas kui_ms_eval =
  kui_ms_update_state_def kui_ms_reset_state_def kui_ms_finalize_state_def kui_ms_get_state_def
  map_set_of_def std_list_begin_def std_list_end_def kui_map_get_literal_key_def
  kui_ms_update_state_search.simps intncmp_def intncmp_loop.simps intlen_def intlen_loop.simps
  cell_def Let_def

lemma example_sorted: "sorted_by_literal_key [map_a_X, map_abc_Y]"
  by (simp add: sorted_by_literal_key_def kui_map_compare_callback_def map_a_X_def map_abc_Y_def
        intcmp_def intcmp_loop.simps)

lemma example_well_formed: "well_formed_keys [map_a_X, map_abc_Y]"
  by (simp add: well_formed_keys_def zero_terminated_def map_a_X_def map_abc_Y_def)

lemma example_tokens: "tokens (literal_key map_a_X) = [97]" "tokens (literal_key map_abc_Y) = [97, 98, 99]"
  by (simp_all add: tokens_def map_a_X_def map_abc_Y_def)

text \<open>
  C1, as amended. Take a map set whose map list is sorted by \<open>literal_key\<close> (all keys
  zero-terminated), whose state is \<open>STILL_LOOKING\<close> and whose cursor is at a map of the
  list, the anchor, that has at least \<open>position\<close> tokens, and a position and a token
  that are not negative. Then \<^verbatim>\<open>kui_ms_update_state\<close> returns 0 and leaves the map set as
  the specification's update rule says: the cursor walks forward by the four steps (not
  found when the candidate does not share the matched prefix of length \<open>position\<close>,
  when its token at \<open>position\<close> exceeds the input token, or when the list is exhausted;
  still looking at an equal token; skip at a smaller one); \<open>is_found\<close> and
  \<open>found_cursor\<close> are latched exactly when the survivor has \<open>position + 1\<close> tokens; and
  the state is then \<open>FOUND\<close> at once exactly when no following candidate shares these
  \<open>position + 1\<close> tokens. Without a map under the cursor (the empty map list after
  \<^verbatim>\<open>kui_ms_reset_state\<close>) the function returns \<^verbatim>\<open>-1\<close> where the rule says \<open>NOT_FOUND\<close>,
  and with an anchor of fewer than \<open>position\<close> tokens it reads behind the terminator
  of a key.
\<close>

theorem kui_ms_update_state_refines_spec:
  assumes "sorted_by_literal_key (map_list ms)"
    and "well_formed_keys (map_list ms)"
    and "map_state ms = KUI_MAP_STILL_LOOKING"
    and "map_iter ms = Node c" and "c < length (map_list ms)"
    and "0 \<le> position"
    and "nat position \<le> length (tokens (literal_key (map_list ms ! c)))"
    and "0 \<le> key"
  shows "kui_ms_update_state ms key position = Inr (spec_update ms c key (nat position))"
  using assms by (rule update_refines)

theorem kui_ms_update_state_refines_spec_witness:
  "sorted_by_literal_key (map_list (kui_ms_reset_state (map_set_of [map_a_X, map_abc_Y]))) \<and>
   well_formed_keys (map_list (kui_ms_reset_state (map_set_of [map_a_X, map_abc_Y]))) \<and>
   map_state (kui_ms_reset_state (map_set_of [map_a_X, map_abc_Y])) = KUI_MAP_STILL_LOOKING \<and>
   map_iter (kui_ms_reset_state (map_set_of [map_a_X, map_abc_Y])) = Node 0 \<and>
   (0::nat) < length (map_list (kui_ms_reset_state (map_set_of [map_a_X, map_abc_Y]))) \<and>
   (0::int) \<le> 0 \<and>
   nat 0 \<le> length (tokens (literal_key
             (map_list (kui_ms_reset_state (map_set_of [map_a_X, map_abc_Y])) ! 0))) \<and>
   (0::int) \<le> 97 \<and>
   kui_ms_update_state (kui_ms_reset_state (map_set_of [map_a_X, map_abc_Y])) 97 0 =
     Inr (spec_update (kui_ms_reset_state (map_set_of [map_a_X, map_abc_Y])) 0 97 0) \<and>
   spec_update (kui_ms_reset_state (map_set_of [map_a_X, map_abc_Y])) 0 97 0 =
     \<lparr>map_list = [map_a_X, map_abc_Y], map_iter = Node 0, map_state = KUI_MAP_STILL_LOOKING,
      is_found = True, map_iter_found = Node 0\<rparr>"
proof -
  let ?ms = "kui_ms_reset_state (map_set_of [map_a_X, map_abc_Y])"
  have l: "map_list ?ms = [map_a_X, map_abc_Y]"
    by (simp add: kui_ms_reset_state_def map_set_of_def)
  have h1: "sorted_by_literal_key (map_list ?ms)" by (simp add: l example_sorted)
  have h2: "well_formed_keys (map_list ?ms)" by (simp add: l example_well_formed)
  have h3: "map_state ?ms = KUI_MAP_STILL_LOOKING" by (simp add: kui_ms_reset_state_def)
  have h4: "map_iter ?ms = Node 0" by (simp add: kui_ms_reset_state_def std_list_begin_def)
  have h5: "0 < length (map_list ?ms)" by (simp add: l)
  have h6: "(0::int) \<le> 0" by simp
  have h7: "nat 0 \<le> length (tokens (literal_key (map_list ?ms ! 0)))" by simp
  have h8: "(0::int) \<le> 97" by simp
  have v: "spec_update ?ms 0 97 0 =
     \<lparr>map_list = [map_a_X, map_abc_Y], map_iter = Node 0, map_state = KUI_MAP_STILL_LOOKING,
      is_found = True, map_iter_found = Node 0\<rparr>"
    by (simp add: spec_update_def l shares_prefix_def token_at_def example_tokens
          kui_ms_reset_state_def map_set_of_def)
  from kui_ms_update_state_refines_spec[OF h1 h2 h3 h4 h5 h6 h7 h8] h1 h2 h3 h4 h5 h7 v
  show ?thesis by simp
qed

theorem kui_ms_update_state_refines_spec_counterexample:
  "sorted_by_literal_key (map_list (kui_ms_reset_state (map_set_of []))) \<and>
   map_state (kui_ms_reset_state (map_set_of [])) = KUI_MAP_STILL_LOOKING \<and>
   kui_ms_update_state (kui_ms_reset_state (map_set_of [])) 97 0 = Inl Error \<and>
   spec_update (kui_ms_reset_state (map_set_of [])) 0 97 0 =
     \<lparr>map_list = [], map_iter = Node 0, map_state = KUI_MAP_NOT_FOUND,
      is_found = False, map_iter_found = NULL\<rparr> \<and>
   sorted_by_literal_key (map_list (kui_ms_reset_state (map_set_of [map_a_X]))) \<and>
   map_state (kui_ms_reset_state (map_set_of [map_a_X])) = KUI_MAP_STILL_LOOKING \<and>
   kui_ms_update_state (kui_ms_reset_state (map_set_of [map_a_X])) 97 2 =
     Inl Out_Of_Bounds_Read"
  by (simp add: kui_ms_eval spec_update_def sorted_by_literal_key_def map_a_X_def)


subsection \<open>The search loop\<close>

lemma intncmp_zero: "intncmp a b 0 = Inr 0"
  by (simp add: intncmp_def intncmp_loop.simps)

lemma get_data_key:
  "std_list_get_data l it = Inr data \<Longrightarrow> kui_map_get_literal_key data = Inr cur \<Longrightarrow>
     \<exists>i. it = Node i \<and> i < length l \<and> cur = literal_key (l ! i)"
  by (cases it) (auto simp: kui_map_get_literal_key_def split: if_splits option.splits)

lemma search_frame:
  "kui_ms_update_state_search ms A key position ic = Inr (ms1, ic1) \<Longrightarrow>
     is_found ms1 = is_found ms \<and> map_iter_found ms1 = map_iter_found ms \<and>
     map_list ms1 = map_list ms \<and>
     (map_state ms1 = map_state ms \<or> map_state ms1 = KUI_MAP_NOT_FOUND \<or>
      map_state ms1 = KUI_MAP_STILL_LOOKING)"
proof (induction ms A key position ic rule: kui_ms_update_state_search.induct)
  case (1 kui_ms int_matched key position int_cur)
  from "1.prems" show ?case
    apply (subst (asm) kui_ms_update_state_search.simps)
    apply (auto split: if_splits sum.splits dest!: "1.IH")
    done
qed

lemma search_first_call:
  "kui_ms_update_state_search ms A key position ic = Inr (ms1, ic1) \<Longrightarrow> position = 0 \<Longrightarrow>
   map_state ms \<noteq> KUI_MAP_NOT_FOUND \<Longrightarrow> map_state ms1 = KUI_MAP_NOT_FOUND \<Longrightarrow>
     \<exists>i c. map_iter ms1 = Node i \<and> i < length (map_list ms1) \<and>
           cell (literal_key (map_list ms1 ! i)) 0 = Inr c \<and> key < c"
proof (induction ms A key position ic rule: kui_ms_update_state_search.induct)
  case (1 kui_ms int_matched key position int_cur)
  show ?case
  proof (cases "map_iter kui_ms \<noteq> std_list_end (map_list kui_ms)")
    case False
    with "1.prems" show ?thesis
      by (subst (asm) kui_ms_update_state_search.simps) auto
  next
    case True
    from "1.prems"(1) True obtain data cur c where
      d: "std_list_get_data (map_list kui_ms) (map_iter kui_ms) = Inr data"
         "kui_map_get_literal_key data = Inr cur"
         "cell cur position = Inr c"
      by (subst (asm) kui_ms_update_state_search.simps)
         (auto split: if_splits sum.splits simp: intncmp_zero "1.prems"(2))
    from get_data_key[OF d(1,2)] obtain i where
      i: "map_iter kui_ms = Node i" "i < length (map_list kui_ms)"
         "cur = literal_key (map_list kui_ms ! i)" by blast
    have r: "intncmp int_matched cur position = Inr 0"
      using "1.prems"(2) by (simp add: intncmp_zero)
    consider (gt) "c > key" | (eq) "c = key" | (lt) "c < key" by linarith
    then show ?thesis
    proof cases
      case gt
      with "1.prems" True d r i show ?thesis
        by (subst (asm) kui_ms_update_state_search.simps) auto
    next
      case eq
      with "1.prems" True d r i show ?thesis
        by (subst (asm) kui_ms_update_state_search.simps) auto
    next
      case lt
      with "1.prems"(1) True d r have
        "kui_ms_update_state_search (kui_ms\<lparr>map_iter := std_list_next (map_iter kui_ms)\<rparr>)
           int_matched key position (Some cur) = Inr (ms1, ic1)"
        by (subst (asm) kui_ms_update_state_search.simps) auto
      from "1.IH"[OF True d(1) d(2) r _ d(3) _ _ this] lt "1.prems" show ?thesis
        by auto
    qed
  qed
qed


subsection \<open>What one update call can do\<close>

lemma update_cases:
  assumes "kui_ms_update_state ms key position = Inr ms'"
  obtains ms1 A ic1 where
    "map_state ms = KUI_MAP_STILL_LOOKING" "0 \<le> position" "0 \<le> key"
    "kui_ms_update_state_search ms A key position None = Inr (ms1, ic1)"
    "ms' = ms1 \<or> ms' = ms1\<lparr>map_state := KUI_MAP_NOT_FOUND\<rparr> \<and>
                    map_iter ms1 = std_list_end (map_list ms1) \<or>
     map_state ms1 \<noteq> KUI_MAP_NOT_FOUND \<and>
       (ms' = ms1\<lparr>is_found := True, map_iter_found := map_iter ms1, map_state := KUI_MAP_FOUND\<rparr> \<or>
        ms' = ms1\<lparr>is_found := True, map_iter_found := map_iter ms1\<rparr>)"
  using assms
  unfolding kui_ms_update_state_def
  by (auto simp: Let_def split: if_splits sum.splits option.splits)

lemma update_invariant:
  assumes "kui_ms_update_state ms key position = Inr ms'"
  shows "map_state ms' \<noteq> KUI_MAP_ERROR \<and> (map_state ms' = KUI_MAP_FOUND \<longrightarrow> is_found ms') \<and>
         (is_found ms \<longrightarrow> is_found ms') \<and> map_list ms' = map_list ms"
proof -
  from assms obtain ms1 A ic1 where
    st: "map_state ms = KUI_MAP_STILL_LOOKING"
    and se: "kui_ms_update_state_search ms A key position None = Inr (ms1, ic1)"
    and r: "ms' = ms1 \<or> ms' = ms1\<lparr>map_state := KUI_MAP_NOT_FOUND\<rparr> \<and>
                    map_iter ms1 = std_list_end (map_list ms1) \<or>
     map_state ms1 \<noteq> KUI_MAP_NOT_FOUND \<and>
       (ms' = ms1\<lparr>is_found := True, map_iter_found := map_iter ms1, map_state := KUI_MAP_FOUND\<rparr> \<or>
        ms' = ms1\<lparr>is_found := True, map_iter_found := map_iter ms1\<rparr>)"
    by (rule update_cases)
  from search_frame[OF se] st have
    f: "is_found ms1 = is_found ms" "map_list ms1 = map_list ms"
       "map_state ms1 = KUI_MAP_NOT_FOUND \<or> map_state ms1 = KUI_MAP_STILL_LOOKING"
    by auto
  from r f show ?thesis by auto
qed

lemma update_first_call:
  assumes "kui_ms_update_state ms key 0 = Inr ms'" and "map_state ms' = KUI_MAP_NOT_FOUND"
  shows "map_iter ms' = std_list_end (map_list ms') \<or>
         (\<exists>i c. map_iter ms' = Node i \<and> i < length (map_list ms') \<and>
                cell (literal_key (map_list ms' ! i)) 0 = Inr c \<and> key < c)"
proof -
  from assms(1) obtain ms1 A ic1 where
    st: "map_state ms = KUI_MAP_STILL_LOOKING"
    and se: "kui_ms_update_state_search ms A key 0 None = Inr (ms1, ic1)"
    and r: "ms' = ms1 \<or> ms' = ms1\<lparr>map_state := KUI_MAP_NOT_FOUND\<rparr> \<and>
                    map_iter ms1 = std_list_end (map_list ms1) \<or>
     map_state ms1 \<noteq> KUI_MAP_NOT_FOUND \<and>
       (ms' = ms1\<lparr>is_found := True, map_iter_found := map_iter ms1, map_state := KUI_MAP_FOUND\<rparr> \<or>
        ms' = ms1\<lparr>is_found := True, map_iter_found := map_iter ms1\<rparr>)"
    by (rule update_cases)
  from r consider (same) "ms' = ms1"
    | (ended) "ms' = ms1\<lparr>map_state := KUI_MAP_NOT_FOUND\<rparr>" "map_iter ms1 = std_list_end (map_list ms1)"
    | (other) "map_state ms' \<noteq> KUI_MAP_NOT_FOUND"
    by auto
  then show ?thesis
  proof cases
    case same
    with search_first_call[OF se refl] st assms(2) show ?thesis by simp
  next
    case ended
    then show ?thesis by simp
  next
    case other
    with assms(2) show ?thesis by simp
  qed
qed

text \<open>
  C10. The bounded compare \<^verbatim>\<open>intncmp\<close> with \<open>n = 0\<close> returns 0 for every pair of arrays,
  and reads no cell of them (it returns 0 even for arrays that hold no cell at all).
  So the first update call of a pass, at position 0, never rejects a candidate for its
  already matched prefix: when it ends not found, either the list is exhausted or the
  cursor is at a candidate whose first token is greater than the input token.
\<close>
theorem intncmp_zero_length:
  "intncmp a b 0 = Inr 0 \<and>
   (kui_ms_update_state ms key 0 = Inr ms' \<and> map_state ms' = KUI_MAP_NOT_FOUND \<longrightarrow>
      map_iter ms' = std_list_end (map_list ms') \<or>
      (\<exists>i c. map_iter ms' = Node i \<and> i < length (map_list ms') \<and>
             cell (literal_key (map_list ms' ! i)) 0 = Inr c \<and> key < c))"
  using update_first_call[of ms key ms'] by (simp add: intncmp_zero)

lemma update_b_a:
  "kui_ms_update_state (kui_ms_reset_state (map_set_of [map_b_Y])) 97 0 =
     Inr \<lparr>map_list = [map_b_Y], map_iter = Node 0, map_state = KUI_MAP_NOT_FOUND,
          is_found = False, map_iter_found = NULL\<rparr>"
  by (simp add: kui_ms_update_state_def kui_ms_reset_state_def map_set_of_def map_b_Y_def
        std_list_begin_def std_list_end_def kui_map_get_literal_key_def
        kui_ms_update_state_search.simps intncmp_def intncmp_loop.simps cell_def)

theorem intncmp_zero_length_witness:
  "intncmp [97, 0] [98, 0] 0 = Inr 0 \<and>
   kui_ms_update_state (kui_ms_reset_state (map_set_of [map_b_Y])) 97 0 =
     Inr \<lparr>map_list = [map_b_Y], map_iter = Node 0, map_state = KUI_MAP_NOT_FOUND,
          is_found = False, map_iter_found = NULL\<rparr> \<and>
   cell (literal_key map_b_Y) 0 = Inr 98 \<and> (97::int) < 98"
proof -
  have c: "cell (literal_key map_b_Y) 0 = Inr 98" by (simp add: cell_def map_b_Y_def)
  from intncmp_zero_length[of "[97, 0]" "[98, 0]" "kui_ms_reset_state (map_set_of [map_b_Y])" 97
      "\<lparr>map_list = [map_b_Y], map_iter = Node 0, map_state = KUI_MAP_NOT_FOUND,
          is_found = False, map_iter_found = NULL\<rparr>"] update_b_a c
  show ?thesis by simp
qed


subsection \<open>Any sequence of updates, then finalize\<close>

lemma update_calls_invariant:
  "update_calls ms calls = Inr ms' \<Longrightarrow>
   map_state ms \<noteq> KUI_MAP_ERROR \<Longrightarrow> (map_state ms = KUI_MAP_FOUND \<longrightarrow> is_found ms) \<Longrightarrow>
   map_state ms' \<noteq> KUI_MAP_ERROR \<and> (map_state ms' = KUI_MAP_FOUND \<longrightarrow> is_found ms')"
proof (induction calls arbitrary: ms)
  case Nil
  then show ?case by simp
next
  case (Cons call calls)
  obtain key position where call: "call = (key, position)" by (cases call)
  from Cons.prems(1) call obtain ms1 where
    u: "kui_ms_update_state ms key position = Inr ms1" and r: "update_calls ms1 calls = Inr ms'"
    by (auto split: sum.splits)
  from update_invariant[OF u] have "map_state ms1 \<noteq> KUI_MAP_ERROR"
    "map_state ms1 = KUI_MAP_FOUND \<longrightarrow> is_found ms1" by auto
  with Cons.IH[OF r] show ?case by blast
qed

lemma lex_le_convex:
  "lex_le x y \<Longrightarrow> lex_le y z \<Longrightarrow> take n x = take n z \<Longrightarrow> n \<le> length x \<Longrightarrow> n \<le> length z \<Longrightarrow>
     take n y = take n x"
proof (induction n arbitrary: x y z)
  case 0
  then show ?case by simp
next
  case (Suc n)
  from Suc.prems(4) obtain a x' where x: "x = a # x'" by (cases x) auto
  from Suc.prems(5) obtain b z' where z: "z = b # z'" by (cases z) auto
  from Suc.prems(3) x z have ab: "a = b" and t: "take n x' = take n z'" by auto
  from Suc.prems(1) x obtain c y' where y: "y = c # y'" by (cases y) auto
  from Suc.prems(1,2) x y z ab have ca: "c = a" and l1: "lex_le x' y'" and l2: "lex_le y' z'"
    by auto
  from Suc.prems(4,5) x z have "n \<le> length x'" "n \<le> length z'" by auto
  from Suc.IH[OF l1 l2 t this] x y ca show ?case by simp
qed

lemma lex_le_longer: "lex_le (xs @ ys) xs \<Longrightarrow> ys = []"
  by (induction xs) (auto elim: lex_le.elims)

lemma spec_walk_shape:
  "c0 + length cs = length l \<Longrightarrow> cs = drop c0 l \<Longrightarrow>
   spec_walk A t n cs c0 = (st, cur) \<Longrightarrow>
     c0 \<le> cur \<and> cur \<le> length l \<and>
     (\<forall>j. c0 \<le> j \<and> j < cur \<longrightarrow>
          shares_prefix n A (literal_key (l ! j)) \<and> token_at (literal_key (l ! j)) n < t) \<and>
     (cur = length l \<and> st = KUI_MAP_STILL_LOOKING \<or>
      cur < length l \<and> st = KUI_MAP_STILL_LOOKING \<and>
        shares_prefix n A (literal_key (l ! cur)) \<and> token_at (literal_key (l ! cur)) n = t \<or>
      cur < length l \<and> st = KUI_MAP_NOT_FOUND \<and>
        (\<not> shares_prefix n A (literal_key (l ! cur)) \<or> token_at (literal_key (l ! cur)) n > t))"
proof (induction cs arbitrary: c0)
  case Nil
  then show ?case by auto
next
  case (Cons m cs)
  from Cons.prems(1) have lt: "c0 < length l" by simp
  from Cons.prems(2) lt have m: "m = l ! c0" and cs: "cs = drop (Suc c0) l"
    by (metis Cons_nth_drop_Suc list.inject)+
  show ?case
  proof (cases "shares_prefix n A (literal_key m) \<and> token_at (literal_key m) n < t")
    case False
    with Cons.prems(3) m lt show ?thesis
      by (auto split: if_splits)
  next
    case True
    with Cons.prems(3) have w: "spec_walk A t n cs (Suc c0) = (st, cur)" by auto
    from Cons.prems(1) have "Suc c0 + length cs = length l" by simp
    from Cons.IH[OF this cs w] have ih:
      "Suc c0 \<le> cur" "cur \<le> length l"
      "\<forall>j. Suc c0 \<le> j \<and> j < cur \<longrightarrow>
          shares_prefix n A (literal_key (l ! j)) \<and> token_at (literal_key (l ! j)) n < t"
      "cur = length l \<and> st = KUI_MAP_STILL_LOOKING \<or>
      cur < length l \<and> st = KUI_MAP_STILL_LOOKING \<and>
        shares_prefix n A (literal_key (l ! cur)) \<and> token_at (literal_key (l ! cur)) n = t \<or>
      cur < length l \<and> st = KUI_MAP_NOT_FOUND \<and>
        (\<not> shares_prefix n A (literal_key (l ! cur)) \<or> token_at (literal_key (l ! cur)) n > t)"
      by auto
    have "shares_prefix n A (literal_key (l ! j)) \<and> token_at (literal_key (l ! j)) n < t"
      if "c0 \<le> j \<and> j < cur" for j
    proof (cases "j = c0")
      case True
      with \<open>shares_prefix n A (literal_key m) \<and> token_at (literal_key m) n < t\<close> m
      show ?thesis by simp
    next
      case False
      with that ih(3) show ?thesis by auto
    qed
    with ih show ?thesis by auto
  qed
qed


lemma take_Suc_snoc_iff:
  "length ts = n \<Longrightarrow>
   take (Suc n) k = ts @ [t] \<longleftrightarrow> take n k = ts \<and> n < length k \<and> k ! n = t"
proof
  assume n: "length ts = n" and e: "take (Suc n) k = ts @ [t]"
  from e have "length (take (Suc n) k) = Suc (length ts)" by simp
  with n have lt: "n < length k" by simp
  from e have "take n (take (Suc n) k) = take n (ts @ [t])" by simp
  with n have a: "take n k = ts" by (simp add: min_def)
  from e have "take (Suc n) k ! n = (ts @ [t]) ! n" by simp
  moreover have "(ts @ [t]) ! n = t" using n by (auto simp: nth_append)
  ultimately have "k ! n = t" by simp
  with a lt show "take n k = ts \<and> n < length k \<and> k ! n = t" by simp
next
  assume "length ts = n" and "take n k = ts \<and> n < length k \<and> k ! n = t"
  then show "take (Suc n) k = ts @ [t]" by (simp add: take_Suc_conv_app_nth)
qed

lemma walk_sorted:
  assumes sorted: "sorted_by_literal_key l" and wf: "well_formed_keys l"
    and c: "c < length l" and pc: "take n (key_at l c) = ts" and n: "length ts = n"
    and first: "\<forall>j<c. take n (key_at l j) \<noteq> ts" and t: "0 < t"
    and w: "spec_walk (literal_key (l ! c)) t n (drop c l) c = (st, cur)"
  shows "c \<le> cur \<and> cur \<le> length l \<and>
         (st = KUI_MAP_NOT_FOUND \<or> st = KUI_MAP_STILL_LOOKING) \<and>
         (if st = KUI_MAP_STILL_LOOKING \<and> cur < length l
          then take (Suc n) (key_at l cur) = ts @ [t] \<and>
               (\<forall>j<cur. take (Suc n) (key_at l j) \<noteq> ts @ [t])
          else \<forall>j<length l. take (Suc n) (key_at l j) \<noteq> ts @ [t])"
proof -
  let ?A = "literal_key (l ! c)"
  have sh: "shares_prefix n ?A (literal_key (l ! j)) \<longleftrightarrow> take n (key_at l j) = ts" for j
    using pc by (auto simp: shares_prefix_def key_at_def)
  have ta: "token_at (literal_key (l ! j)) n =
              (if n < length (key_at l j) then key_at l j ! n else 0)" for j
    by (simp add: token_at_def key_at_def)
  have le: "lex_le (key_at l i) (key_at l j)" if "i < j" "j < length l" for i j
    using sorted_le_tokens[OF sorted wf that] by (simp add: key_at_def)
  from c have "c + length (drop c l) = length l" by simp
  from spec_walk_shape[OF this refl w] have
    b: "c \<le> cur" "cur \<le> length l"
    and skipped: "\<And>j. c \<le> j \<Longrightarrow> j < cur \<Longrightarrow>
          take n (key_at l j) = ts \<and> token_at (literal_key (l ! j)) n < t"
    and shape: "cur = length l \<and> st = KUI_MAP_STILL_LOOKING \<or>
      cur < length l \<and> st = KUI_MAP_STILL_LOOKING \<and>
        take n (key_at l cur) = ts \<and> token_at (literal_key (l ! cur)) n = t \<or>
      cur < length l \<and> st = KUI_MAP_NOT_FOUND \<and>
        (take n (key_at l cur) \<noteq> ts \<or> token_at (literal_key (l ! cur)) n > t)"
    unfolding sh by auto
  have before: "take (Suc n) (key_at l j) \<noteq> ts @ [t]" if "j < cur" for j
  proof (cases "j < c")
    case True
    with first have "take n (key_at l j) \<noteq> ts" by simp
    then show ?thesis using take_Suc_snoc_iff[OF n] by blast
  next
    case False
    with that skipped[of j] have "token_at (literal_key (l ! j)) n < t" by simp
    then have "\<not> (n < length (key_at l j) \<and> key_at l j ! n = t)"
      by (auto simp: ta)
    then show ?thesis using take_Suc_snoc_iff[OF n] by blast
  qed
  from shape consider
      (ended) "cur = length l" "st = KUI_MAP_STILL_LOOKING"
    | (survive) "cur < length l" "st = KUI_MAP_STILL_LOOKING"
        "take n (key_at l cur) = ts" "token_at (literal_key (l ! cur)) n = t"
    | (mismatch) "cur < length l" "st = KUI_MAP_NOT_FOUND" "take n (key_at l cur) \<noteq> ts"
    | (greater) "cur < length l" "st = KUI_MAP_NOT_FOUND" "take n (key_at l cur) = ts"
        "token_at (literal_key (l ! cur)) n > t"
    by blast
  then show ?thesis
  proof cases
    case ended
    with b before show ?thesis by simp
  next
    case survive
    from survive(4) t have "n < length (key_at l cur) \<and> key_at l cur ! n = t"
      by (auto simp: ta split: if_splits)
    with survive(3) have "take (Suc n) (key_at l cur) = ts @ [t]"
      using take_Suc_snoc_iff[OF n] by blast
    with survive b before show ?thesis by simp
  next
    case mismatch
    have cc: "c < cur" using mismatch(3) pc b(1) by (cases "c = cur") auto
    have "take (Suc n) (key_at l j) \<noteq> ts @ [t]" if j: "j < length l" for j
    proof (cases "j < cur")
      case True
      then show ?thesis by (rule before)
    next
      case False
      show ?thesis
      proof
        assume e: "take (Suc n) (key_at l j) = ts @ [t]"
        then have pj: "take n (key_at l j) = ts" "n < length (key_at l j)"
          using take_Suc_snoc_iff[OF n] by blast+
        from mismatch(3) pj(1) False have "cur < j" by (cases "cur = j") auto
        have nc: "n \<le> length (key_at l c)" using pc n by (metis length_take min.cobounded1)
        have teq: "take n (key_at l c) = take n (key_at l j)" using pc pj(1) by simp
        have nj: "n \<le> length (key_at l j)" using pj(2) by simp
        have "take n (key_at l cur) = take n (key_at l c)"
          by (rule lex_le_convex[OF le[OF cc mismatch(1)] le[OF \<open>cur < j\<close> j] teq nc nj])
        with pc mismatch(3) show False by simp
      qed
    qed
    with mismatch b show ?thesis by simp
  next
    case greater
    from greater(4) t have g: "n < length (key_at l cur)" "key_at l cur ! n > t"
      by (auto simp: ta split: if_splits)
    have "take (Suc n) (key_at l j) \<noteq> ts @ [t]" if j: "j < length l" for j
    proof (cases "j < cur")
      case True
      then show ?thesis by (rule before)
    next
      case False
      show ?thesis
      proof
        assume e: "take (Suc n) (key_at l j) = ts @ [t]"
        then have pj: "take n (key_at l j) = ts" "n < length (key_at l j)" "key_at l j ! n = t"
          using take_Suc_snoc_iff[OF n] by blast+
        from pj(3) g(2) False have "cur < j" by (cases "cur = j") auto
        from le[OF this j] have "lex_le (key_at l cur) (key_at l j)" .
        moreover have "lex_le (key_at l cur) (key_at l j) =
                       lex_le (drop n (key_at l cur)) (drop n (key_at l j))"
          using greater(3) pj(1,2) g(1) by (intro lex_le_drop) auto
        moreover have "drop n (key_at l cur) = key_at l cur ! n # drop (Suc n) (key_at l cur)"
          using g(1) by (simp add: Cons_nth_drop_Suc)
        moreover have "drop n (key_at l j) = t # drop (Suc n) (key_at l j)"
          using pj(2,3) by (metis Cons_nth_drop_Suc)
        ultimately show False using g(2) by simp
      qed
    qed
    with greater b show ?thesis by simp
  qed
qed


lemma spec_update_walk:
  "spec_walk (literal_key (map_list ms ! c)) t p (drop c (map_list ms)) c = (st, cur) \<Longrightarrow>
   spec_update ms c t p =
     (if st = KUI_MAP_NOT_FOUND \<or> cur = length (map_list ms)
      then ms\<lparr>map_iter := Node cur, map_state := KUI_MAP_NOT_FOUND\<rparr>
      else if length (tokens (literal_key (map_list ms ! cur))) = p + 1
      then ms\<lparr>map_iter := Node cur,
              map_state :=
                (if list_all (\<lambda>m. \<not> shares_prefix (p + 1)
                                     (literal_key (map_list ms ! cur)) (literal_key m))
                      (drop (Suc cur) (map_list ms))
                 then KUI_MAP_FOUND else KUI_MAP_STILL_LOOKING),
              is_found := True,
              map_iter_found := Node cur\<rparr>
      else ms\<lparr>map_iter := Node cur, map_state := KUI_MAP_STILL_LOOKING\<rparr>)"
  by (simp add: spec_update_def)

lemma prefix_snoc:
  "take (length k) (ts @ [t]) = k \<longleftrightarrow> take (length k) ts = k \<or> k = ts @ [t]"
proof (cases "length k \<le> length ts")
  case True
  then have "take (length k) (ts @ [t]) = take (length k) ts" by simp
  moreover from True have "k \<noteq> ts @ [t]" by auto
  ultimately show ?thesis by simp
next
  case False
  have "take (length k) ts \<noteq> k"
  proof
    assume "take (length k) ts = k"
    then have "length (take (length k) ts) = length k" by simp
    with False show False by simp
  qed
  moreover have "take (length k) (ts @ [t]) = k \<longleftrightarrow> k = ts @ [t]"
  proof
    assume e: "take (length k) (ts @ [t]) = k"
    from False have "take (length k) (ts @ [t]) = ts @ [t]" by simp
    with e show "k = ts @ [t]" by simp
  next
    assume "k = ts @ [t]"
    then show "take (length k) (ts @ [t]) = k" by simp
  qed
  ultimately show ?thesis by simp
qed

lemma inv_step:
  assumes sorted: "sorted_by_literal_key l" and wf: "well_formed_keys l"
    and inv: "matcher_inv l ts ms" and t: "0 < t"
    and u: "kui_ms_update_state ms t (int (length ts)) = Inr ms'"
  shows "matcher_inv l (ts @ [t]) ms'"
proof -
  define n where "n = length ts"
  have nl: "length ts = n" by (simp add: n_def)
  from u have st: "map_state ms = KUI_MAP_STILL_LOOKING"
    by (auto simp: kui_ms_update_state_def split: if_splits)
  from inv have ml: "map_list ms = l" by (simp add: matcher_inv_def)
  from inv st obtain c where
    it: "map_iter ms = Node c" and c: "c < length l"
    and pc: "take n (key_at l c) = ts" and first: "\<forall>j<c. take n (key_at l j) \<noteq> ts"
    unfolding matcher_inv_def n_def by auto
  from inv have latched:
    "is_found ms \<longleftrightarrow>
       (\<exists>j<length l. key_at l j \<noteq> [] \<and> take (length (key_at l j)) ts = key_at l j)"
    by (simp add: matcher_inv_def)
  have anchor: "nat (int n) \<le> length (tokens (literal_key (map_list ms ! c)))"
    using pc nl unfolding ml key_at_def by (metis length_take min.cobounded1 nat_int)
  have "kui_ms_update_state ms t (int n) = Inr (spec_update ms c t (nat (int n)))"
    using sorted wf st it c anchor t unfolding ml[symmetric]
    by (intro update_refines) auto
  with u have ms': "ms' = spec_update ms c t n" by (simp add: n_def)
  obtain stt cur where w: "spec_walk (literal_key (l ! c)) t n (drop c l) c = (stt, cur)"
    by (cases "spec_walk (literal_key (l ! c)) t n (drop c l) c")
  from walk_sorted[OF sorted wf c pc nl first t w] have
    b: "c \<le> cur" "cur \<le> length l"
    and stt: "stt = KUI_MAP_NOT_FOUND \<or> stt = KUI_MAP_STILL_LOOKING"
    and sem: "if stt = KUI_MAP_STILL_LOOKING \<and> cur < length l
          then take (Suc n) (key_at l cur) = ts @ [t] \<and>
               (\<forall>j<cur. take (Suc n) (key_at l j) \<noteq> ts @ [t])
          else \<forall>j<length l. take (Suc n) (key_at l j) \<noteq> ts @ [t]"
    by auto
  note su = spec_update_walk[of ms c t n stt cur, unfolded ml, OF w]
  have new: "(\<exists>j<length l. key_at l j \<noteq> [] \<and>
                 take (length (key_at l j)) (ts @ [t]) = key_at l j) \<longleftrightarrow>
             (\<exists>j<length l. key_at l j \<noteq> [] \<and> take (length (key_at l j)) ts = key_at l j) \<or>
             (\<exists>j<length l. key_at l j = ts @ [t])"
    unfolding prefix_snoc by auto
  show ?thesis
  proof (cases "stt = KUI_MAP_STILL_LOOKING \<and> cur < length l")
    case False
    with stt b have cond: "stt = KUI_MAP_NOT_FOUND \<or> cur = length l" by auto
    from False sem have none: "\<forall>j<length l. take (Suc n) (key_at l j) \<noteq> ts @ [t]" by simp
    then have "\<not> (\<exists>j<length l. key_at l j = ts @ [t])"
      by (metis nl length_append_singleton order_refl take_all)
    with new latched have
      "is_found ms \<longleftrightarrow> (\<exists>j<length l. key_at l j \<noteq> [] \<and>
                 take (length (key_at l j)) (ts @ [t]) = key_at l j)" by simp
    moreover have "ms' = ms\<lparr>map_iter := Node cur, map_state := KUI_MAP_NOT_FOUND\<rparr>"
      unfolding ms' su using cond by simp
    ultimately show ?thesis
      using none ml nl by (simp add: matcher_inv_def)
  next
    case True
    then have cl: "cur < length l" and ncond: "\<not> (stt = KUI_MAP_NOT_FOUND \<or> cur = length l)"
      by auto
    from True sem have pcur: "take (Suc n) (key_at l cur) = ts @ [t]"
      and fcur: "\<forall>j<cur. take (Suc n) (key_at l j) \<noteq> ts @ [t]" by auto
    have i3: "\<exists>c'. Node cur = Node c' \<and> c' < length l \<and>
                take (length (ts @ [t])) (key_at l c') = ts @ [t] \<and>
                (\<forall>j<c'. take (length (ts @ [t])) (key_at l j) \<noteq> ts @ [t])"
      using cl pcur fcur nl by auto
    show ?thesis
    proof (cases "length (key_at l cur) = n + 1")
      case eq: True
      with pcur have "key_at l cur = ts @ [t]" by simp
      with cl have "\<exists>j<length l. key_at l j = ts @ [t]" by blast
      with new have m: "\<exists>j<length l. key_at l j \<noteq> [] \<and>
                 take (length (key_at l j)) (ts @ [t]) = key_at l j" by simp
      define X where "X = (if list_all (\<lambda>m. \<not> shares_prefix (n + 1)
                                     (literal_key (l ! cur)) (literal_key m))
                      (drop (Suc cur) l)
                 then KUI_MAP_FOUND else KUI_MAP_STILL_LOOKING)"
      have X: "X = KUI_MAP_FOUND \<or> X = KUI_MAP_STILL_LOOKING" by (simp add: X_def)
      have r: "ms' = ms\<lparr>map_iter := Node cur, map_state := X, is_found := True,
                          map_iter_found := Node cur\<rparr>"
        unfolding ms' su X_def using ncond eq by (simp add: key_at_def)
      from X i3 m ml show ?thesis
        unfolding r matcher_inv_def by auto
    next
      case ne: False
      have "\<not> (\<exists>j<length l. key_at l j = ts @ [t])"
      proof
        assume "\<exists>j<length l. key_at l j = ts @ [t]"
        then obtain j where j: "j < length l" "key_at l j = ts @ [t]" by blast
        then have "take (Suc n) (key_at l j) = ts @ [t]" using nl by simp
        with fcur have "\<not> j < cur" by blast
        moreover have "j \<noteq> cur" using j(2) ne nl by auto
        ultimately have "cur < j" by simp
        from sorted_le_tokens[OF sorted wf this j(1)]
        have "lex_le (key_at l cur) (key_at l j)" by (simp add: key_at_def)
        moreover have "key_at l cur = (ts @ [t]) @ drop (Suc n) (key_at l cur)"
          using pcur by (metis append_take_drop_id)
        ultimately have "lex_le ((ts @ [t]) @ drop (Suc n) (key_at l cur)) (ts @ [t])"
          using j(2) by simp
        then have "drop (Suc n) (key_at l cur) = []" by (rule lex_le_longer)
        then have "length (key_at l cur) \<le> Suc n" by simp
        moreover have "Suc n \<le> length (key_at l cur)"
          using pcur nl by (metis length_append_singleton length_take min.cobounded1)
        ultimately show False using ne by simp
      qed
      with new latched have
        "is_found ms \<longleftrightarrow> (\<exists>j<length l. key_at l j \<noteq> [] \<and>
                 take (length (key_at l j)) (ts @ [t]) = key_at l j)" by simp
      moreover have "ms' = ms\<lparr>map_iter := Node cur, map_state := KUI_MAP_STILL_LOOKING\<rparr>"
        unfolding ms' su using ncond ne by (simp add: key_at_def)
      ultimately show ?thesis
        using i3 ml by (simp add: matcher_inv_def)
    qed
  qed
qed


lemma fed_Nil: "fed [] p = []"
  by (simp add: fed_def)

lemma fed_Cons: "fed (t # ts) p = (t, int p) # fed ts (Suc p)"
  by (simp add: fed_def upt_conv_Cons del: upt_Suc)

lemma inv_calls:
  assumes sorted: "sorted_by_literal_key l" and wf: "well_formed_keys l"
  shows "matcher_inv l ts ms \<Longrightarrow> list_all (\<lambda>t. 0 < t) us \<Longrightarrow>
         update_calls ms (fed us (length ts)) = Inr ms' \<Longrightarrow> matcher_inv l (ts @ us) ms'"
proof (induction us arbitrary: ts ms)
  case Nil
  then show ?case by (simp add: fed_Nil)
next
  case (Cons u us)
  from Cons.prems(3) obtain ms1 where
    u: "kui_ms_update_state ms u (int (length ts)) = Inr ms1"
    and r: "update_calls ms1 (fed us (Suc (length ts))) = Inr ms'"
    by (auto simp: fed_Cons split: sum.splits)
  from Cons.prems(2) have pos: "0 < u" and rest: "list_all (\<lambda>t. 0 < t) us" by auto
  from inv_step[OF sorted wf Cons.prems(1) pos u] have i: "matcher_inv l (ts @ [u]) ms1" .
  from r have "update_calls ms1 (fed us (length (ts @ [u]))) = Inr ms'" by simp
  from Cons.IH[OF i rest this] show ?case by simp
qed

lemma inv_reset:
  "map_list ms \<noteq> [] \<Longrightarrow> matcher_inv (map_list ms) [] (kui_ms_reset_state ms)"
  by (auto simp: matcher_inv_def kui_ms_reset_state_def std_list_begin_def)

lemma inv_finalize:
  assumes "matcher_inv l ts ms"
  shows "map_state (kui_ms_finalize_state ms) =
           (if \<exists>j<length l. key_at l j \<noteq> [] \<and> take (length (key_at l j)) ts = key_at l j
            then KUI_MAP_FOUND
            else if \<exists>j<length l. take (length ts) (key_at l j) = ts
            then KUI_MAP_STILL_LOOKING else KUI_MAP_NOT_FOUND)"
proof (cases "is_found ms")
  case True
  with assms show ?thesis by (simp add: matcher_inv_def kui_ms_finalize_state_def)
next
  case False
  with assms have nf: "map_state ms \<noteq> KUI_MAP_FOUND" "map_state ms \<noteq> KUI_MAP_ERROR"
    and m: "\<not> (\<exists>j<length l. key_at l j \<noteq> [] \<and> take (length (key_at l j)) ts = key_at l j)"
    by (auto simp: matcher_inv_def)
  show ?thesis
  proof (cases "map_state ms = KUI_MAP_NOT_FOUND")
    case True
    with assms have "\<not> (\<exists>j<length l. take (length ts) (key_at l j) = ts)"
      by (auto simp: matcher_inv_def)
    with m True False show ?thesis by (simp add: kui_ms_finalize_state_def)
  next
    case nn: False
    with nf have s: "map_state ms = KUI_MAP_STILL_LOOKING" by (cases "map_state ms") auto
    from assms nn have "\<exists>j<length l. take (length ts) (key_at l j) = ts"
      by (auto simp: matcher_inv_def)
    with m s False show ?thesis by (simp add: kui_ms_finalize_state_def)
  qed
qed

lemma some_key_matched_iff:
  "some_key_matched l ts \<longleftrightarrow>
     (\<exists>j<length l. key_at l j \<noteq> [] \<and> take (length (key_at l j)) ts = key_at l j)"
  unfolding some_key_matched_def key_at_def list_ex_iff by (metis in_set_conv_nth)

lemma some_key_extends_iff:
  "some_key_extends l ts \<longleftrightarrow> (\<exists>j<length l. take (length ts) (key_at l j) = ts)"
  unfolding some_key_extends_def key_at_def list_ex_iff by (metis in_set_conv_nth)


text \<open>
  C5, as amended. After \<^verbatim>\<open>kui_ms_reset_state\<close>, any sequence of calls of
  \<^verbatim>\<open>kui_ms_update_state\<close> that return 0, and \<^verbatim>\<open>kui_ms_finalize_state\<close>, the state is
  never \<open>ERROR\<close>: it is \<open>FOUND\<close> exactly when \<open>is_found\<close> was latched, \<open>STILL_LOOKING\<close>
  exactly when the last call (or the reset, when there was no call) left \<open>STILL_LOOKING\<close>
  with nothing latched, and \<open>NOT_FOUND\<close> in every other case; so it is \<open>FOUND\<close> or
  \<open>NOT_FOUND\<close> unless the calls stopped inside a key with nothing latched. In terms of
  the keys: when the map list is sorted by \<open>literal_key\<close> (all keys zero-terminated) and
  the calls feed the positive tokens \<open>ts\<close> at the positions 0, 1, 2, ..., the state after
  finalize is \<open>FOUND\<close> exactly when some key, not empty, is a prefix of \<open>ts\<close>; otherwise it
  is \<open>STILL_LOOKING\<close> exactly when \<open>ts\<close> is the beginning of some key (or no token was
  fed), and \<open>NOT_FOUND\<close> when it is not.
\<close>
theorem finalize_after_updates:
  assumes "update_calls (kui_ms_reset_state ms) calls = Inr ms'"
  shows "map_state (kui_ms_finalize_state ms') =
           (if is_found ms' then KUI_MAP_FOUND
            else if map_state ms' = KUI_MAP_STILL_LOOKING then KUI_MAP_STILL_LOOKING
            else KUI_MAP_NOT_FOUND) \<and>
         (sorted_by_literal_key (map_list ms) \<and> well_formed_keys (map_list ms) \<and>
          list_all (\<lambda>t. 0 < t) ts \<and> calls = fed ts 0 \<longrightarrow>
          map_state (kui_ms_finalize_state ms') =
            (if some_key_matched (map_list ms) ts then KUI_MAP_FOUND
             else if ts = [] \<or> some_key_extends (map_list ms) ts then KUI_MAP_STILL_LOOKING
             else KUI_MAP_NOT_FOUND))"
proof (intro conjI impI)
  have "map_state (kui_ms_reset_state ms) \<noteq> KUI_MAP_ERROR"
       "map_state (kui_ms_reset_state ms) = KUI_MAP_FOUND \<longrightarrow> is_found (kui_ms_reset_state ms)"
    by (simp_all add: kui_ms_reset_state_def)
  from update_calls_invariant[OF assms this]
  have "map_state ms' \<noteq> KUI_MAP_ERROR" "map_state ms' = KUI_MAP_FOUND \<longrightarrow> is_found ms'"
    by auto
  then show "map_state (kui_ms_finalize_state ms') =
           (if is_found ms' then KUI_MAP_FOUND
            else if map_state ms' = KUI_MAP_STILL_LOOKING then KUI_MAP_STILL_LOOKING
            else KUI_MAP_NOT_FOUND)"
    by (cases "map_state ms'") (auto simp: kui_ms_finalize_state_def)
next
  assume h: "sorted_by_literal_key (map_list ms) \<and> well_formed_keys (map_list ms) \<and>
          list_all (\<lambda>t. 0 < t) ts \<and> calls = fed ts 0"
  show "map_state (kui_ms_finalize_state ms') =
            (if some_key_matched (map_list ms) ts then KUI_MAP_FOUND
             else if ts = [] \<or> some_key_extends (map_list ms) ts then KUI_MAP_STILL_LOOKING
             else KUI_MAP_NOT_FOUND)"
  proof (cases "map_list ms = []")
    case True
    show ?thesis
    proof (cases ts)
      case Nil
      with assms h have "ms' = kui_ms_reset_state ms" by (simp add: fed_Nil)
      with Nil True show ?thesis
        by (simp add: some_key_matched_def kui_ms_finalize_state_def kui_ms_reset_state_def)
    next
      case (Cons t ts')
      have "kui_ms_update_state (kui_ms_reset_state ms) t 0 = Inl Error"
        using True
        by (simp add: kui_ms_update_state_def kui_ms_reset_state_def std_list_begin_def
              kui_map_get_literal_key_def)
      with assms h Cons show ?thesis by (simp add: fed_Cons)
    qed
  next
    case False
    from h assms have c: "update_calls (kui_ms_reset_state ms) (fed ts (length ([]::int list))) = Inr ms'"
      by simp
    from h have s: "sorted_by_literal_key (map_list ms)" and w: "well_formed_keys (map_list ms)"
      and p: "list_all (\<lambda>t. 0 < t) ts" by auto
    from inv_calls[OF s w inv_reset[OF False] p c]
    have "matcher_inv (map_list ms) ts ms'" by simp
    moreover have "ts = [] \<or> some_key_extends (map_list ms) ts \<longleftrightarrow>
                   (\<exists>j<length (map_list ms). take (length ts) (key_at (map_list ms) j) = ts)"
      using False unfolding some_key_extends_iff by auto
    ultimately show ?thesis
      using inv_finalize[of "map_list ms" ts ms'] unfolding some_key_matched_iff by auto
  qed
qed


lemma update_abc_a:
  "kui_ms_update_state (kui_ms_reset_state (map_set_of [map_abc_Y])) 97 0 =
     Inr \<lparr>map_list = [map_abc_Y], map_iter = Node 0, map_state = KUI_MAP_STILL_LOOKING,
          is_found = False, map_iter_found = NULL\<rparr>"
  by (simp add: kui_ms_eval map_abc_Y_def)

lemma update_abc_ab:
  "kui_ms_update_state
     \<lparr>map_list = [map_abc_Y], map_iter = Node 0, map_state = KUI_MAP_STILL_LOOKING,
      is_found = False, map_iter_found = NULL\<rparr> 98 1 =
     Inr \<lparr>map_list = [map_abc_Y], map_iter = Node 0, map_state = KUI_MAP_STILL_LOOKING,
          is_found = False, map_iter_found = NULL\<rparr>"
  by (simp add: kui_ms_eval map_abc_Y_def)

lemma calls_a_b:
  "update_calls (kui_ms_reset_state (map_set_of [map_abc_Y])) [(97, 0), (98, 1)] =
     Inr \<lparr>map_list = [map_abc_Y], map_iter = Node 0, map_state = KUI_MAP_STILL_LOOKING,
          is_found = False, map_iter_found = NULL\<rparr>"
  by (simp only: update_calls.simps update_abc_a update_abc_ab sum.case)

theorem finalize_after_updates_counterexample:
  "update_calls (kui_ms_reset_state (map_set_of [map_abc_Y])) [(97, 0), (98, 1)] =
     Inr \<lparr>map_list = [map_abc_Y], map_iter = Node 0, map_state = KUI_MAP_STILL_LOOKING,
          is_found = False, map_iter_found = NULL\<rparr> \<and>
   map_state (kui_ms_finalize_state
     \<lparr>map_list = [map_abc_Y], map_iter = Node 0, map_state = KUI_MAP_STILL_LOOKING,
      is_found = False, map_iter_found = NULL\<rparr>) = KUI_MAP_STILL_LOOKING \<and>
   KUI_MAP_STILL_LOOKING \<noteq> KUI_MAP_FOUND \<and> KUI_MAP_STILL_LOOKING \<noteq> KUI_MAP_NOT_FOUND"
  unfolding calls_a_b by (simp add: kui_ms_finalize_state_def)

lemma update_prefix_a:
  "kui_ms_update_state (kui_ms_reset_state (map_set_of [map_a_X, map_abc_Y])) 97 0 =
     Inr \<lparr>map_list = [map_a_X, map_abc_Y], map_iter = Node 0,
          map_state = KUI_MAP_STILL_LOOKING, is_found = True, map_iter_found = Node 0\<rparr>"
  by (simp add: kui_ms_eval map_abc_Y_def map_a_X_def)

lemma update_prefix_ad:
  "kui_ms_update_state
     \<lparr>map_list = [map_a_X, map_abc_Y], map_iter = Node 0,
      map_state = KUI_MAP_STILL_LOOKING, is_found = True, map_iter_found = Node 0\<rparr> 100 1 =
     Inr \<lparr>map_list = [map_a_X, map_abc_Y], map_iter = Node 2,
          map_state = KUI_MAP_NOT_FOUND, is_found = True, map_iter_found = Node 0\<rparr>"
  by (simp add: kui_ms_eval map_abc_Y_def map_a_X_def)

lemma calls_fed_a_d:
  "update_calls (kui_ms_reset_state (map_set_of [map_a_X, map_abc_Y])) (fed [97, 100] 0) =
     Inr \<lparr>map_list = [map_a_X, map_abc_Y], map_iter = Node 2, map_state = KUI_MAP_NOT_FOUND,
          is_found = True, map_iter_found = Node 0\<rparr>"
  unfolding fed_Cons fed_Nil
  by (simp only: update_calls.simps update_prefix_a update_prefix_ad sum.case One_nat_def[symmetric] int_ops)


lemma update_abc_ad:
  "kui_ms_update_state
     \<lparr>map_list = [map_abc_Y], map_iter = Node 0, map_state = KUI_MAP_STILL_LOOKING,
      is_found = False, map_iter_found = NULL\<rparr> 100 1 =
     Inr \<lparr>map_list = [map_abc_Y], map_iter = Node 1, map_state = KUI_MAP_NOT_FOUND,
          is_found = False, map_iter_found = NULL\<rparr>"
  by (simp add: kui_ms_eval map_abc_Y_def)

lemma calls_fed_abc_ab:
  "update_calls (kui_ms_reset_state (map_set_of [map_abc_Y])) (fed [97, 98] 0) =
     Inr \<lparr>map_list = [map_abc_Y], map_iter = Node 0, map_state = KUI_MAP_STILL_LOOKING,
          is_found = False, map_iter_found = NULL\<rparr>"
  unfolding fed_Cons fed_Nil
  by (simp only: update_calls.simps update_abc_a update_abc_ab sum.case One_nat_def[symmetric] int_ops)

lemma calls_fed_abc_ad:
  "update_calls (kui_ms_reset_state (map_set_of [map_abc_Y])) (fed [97, 100] 0) =
     Inr \<lparr>map_list = [map_abc_Y], map_iter = Node 1, map_state = KUI_MAP_NOT_FOUND,
          is_found = False, map_iter_found = NULL\<rparr>"
  unfolding fed_Cons fed_Nil
  by (simp only: update_calls.simps update_abc_a update_abc_ad sum.case One_nat_def[symmetric] int_ops)

lemma example_abc_sorted:
  "sorted_by_literal_key [map_abc_Y]" "well_formed_keys [map_abc_Y]"
  by (simp_all add: sorted_by_literal_key_def well_formed_keys_def zero_terminated_def map_abc_Y_def)


theorem finalize_after_updates_witness:
  "update_calls (kui_ms_reset_state (map_set_of [map_a_X, map_abc_Y])) (fed [97, 100] 0) =
     Inr \<lparr>map_list = [map_a_X, map_abc_Y], map_iter = Node 2, map_state = KUI_MAP_NOT_FOUND,
          is_found = True, map_iter_found = Node 0\<rparr> \<and>
   sorted_by_literal_key (map_list (map_set_of [map_a_X, map_abc_Y])) \<and>
   well_formed_keys (map_list (map_set_of [map_a_X, map_abc_Y])) \<and>
   list_all (\<lambda>t. 0 < t) [97, 100 :: int] \<and>
   some_key_matched (map_list (map_set_of [map_a_X, map_abc_Y])) [97, 100] \<and>
   map_state (kui_ms_finalize_state
     \<lparr>map_list = [map_a_X, map_abc_Y], map_iter = Node 2, map_state = KUI_MAP_NOT_FOUND,
      is_found = True, map_iter_found = Node 0\<rparr>) = KUI_MAP_FOUND \<and>
   update_calls (kui_ms_reset_state (map_set_of [map_abc_Y])) (fed [97, 98] 0) =
     Inr \<lparr>map_list = [map_abc_Y], map_iter = Node 0, map_state = KUI_MAP_STILL_LOOKING,
          is_found = False, map_iter_found = NULL\<rparr> \<and>
   sorted_by_literal_key (map_list (map_set_of [map_abc_Y])) \<and>
   well_formed_keys (map_list (map_set_of [map_abc_Y])) \<and>
   list_all (\<lambda>t. 0 < t) [97, 98 :: int] \<and>
   \<not> some_key_matched (map_list (map_set_of [map_abc_Y])) [97, 98] \<and>
   some_key_extends (map_list (map_set_of [map_abc_Y])) [97, 98] \<and>
   map_state (kui_ms_finalize_state
     \<lparr>map_list = [map_abc_Y], map_iter = Node 0, map_state = KUI_MAP_STILL_LOOKING,
      is_found = False, map_iter_found = NULL\<rparr>) = KUI_MAP_STILL_LOOKING \<and>
   update_calls (kui_ms_reset_state (map_set_of [map_abc_Y])) (fed [97, 100] 0) =
     Inr \<lparr>map_list = [map_abc_Y], map_iter = Node 1, map_state = KUI_MAP_NOT_FOUND,
          is_found = False, map_iter_found = NULL\<rparr> \<and>
   \<not> some_key_matched (map_list (map_set_of [map_abc_Y])) [97, 100] \<and>
   \<not> some_key_extends (map_list (map_set_of [map_abc_Y])) [97, 100] \<and>
   map_state (kui_ms_finalize_state
     \<lparr>map_list = [map_abc_Y], map_iter = Node 1, map_state = KUI_MAP_NOT_FOUND,
      is_found = False, map_iter_found = NULL\<rparr>) = KUI_MAP_NOT_FOUND"
proof -
  have l1: "map_list (map_set_of [map_a_X, map_abc_Y]) = [map_a_X, map_abc_Y]"
    and l2: "map_list (map_set_of [map_abc_Y]) = [map_abc_Y]"
    by (simp_all add: map_set_of_def)
  have s1: "sorted_by_literal_key (map_list (map_set_of [map_a_X, map_abc_Y]))"
    and w1: "well_formed_keys (map_list (map_set_of [map_a_X, map_abc_Y]))"
    by (simp_all add: l1 example_sorted example_well_formed)
  have s2: "sorted_by_literal_key (map_list (map_set_of [map_abc_Y]))"
    and w2: "well_formed_keys (map_list (map_set_of [map_abc_Y]))"
    by (simp_all add: l2 example_abc_sorted)
  have m1: "some_key_matched (map_list (map_set_of [map_a_X, map_abc_Y])) [97, 100]"
    by (simp add: l1 some_key_matched_def example_tokens)
  have m2: "\<not> some_key_matched (map_list (map_set_of [map_abc_Y])) [97, 98]"
    and e2: "some_key_extends (map_list (map_set_of [map_abc_Y])) [97, 98]"
    and m3: "\<not> some_key_matched (map_list (map_set_of [map_abc_Y])) [97, 100]"
    and e3: "\<not> some_key_extends (map_list (map_set_of [map_abc_Y])) [97, 100]"
    by (simp_all add: l2 some_key_matched_def some_key_extends_def example_tokens)
  have p1: "list_all (\<lambda>t. 0 < t) [97, 100 :: int]" and p2: "list_all (\<lambda>t. 0 < t) [97, 98 :: int]"
    by simp_all
  from finalize_after_updates[OF calls_fed_a_d, of "[97, 100]"] s1 w1 p1 m1
  have r1: "map_state (kui_ms_finalize_state
     \<lparr>map_list = [map_a_X, map_abc_Y], map_iter = Node 2, map_state = KUI_MAP_NOT_FOUND,
      is_found = True, map_iter_found = Node 0\<rparr>) = KUI_MAP_FOUND"
    by simp
  from finalize_after_updates[OF calls_fed_abc_ab, of "[97, 98]"] s2 w2 p2 m2 e2
  have r2: "map_state (kui_ms_finalize_state
     \<lparr>map_list = [map_abc_Y], map_iter = Node 0, map_state = KUI_MAP_STILL_LOOKING,
      is_found = False, map_iter_found = NULL\<rparr>) = KUI_MAP_STILL_LOOKING"
    by simp
  from finalize_after_updates[OF calls_fed_abc_ad, of "[97, 100]"] s2 w2 p1 m3 e3
  have r3: "map_state (kui_ms_finalize_state
     \<lparr>map_list = [map_abc_Y], map_iter = Node 1, map_state = KUI_MAP_NOT_FOUND,
      is_found = False, map_iter_found = NULL\<rparr>) = KUI_MAP_NOT_FOUND"
    by simp
  show ?thesis
    by (intro conjI calls_fed_a_d calls_fed_abc_ab calls_fed_abc_ad s1 w1 s2 w2 p1 p2
          m1 m2 e2 m3 e3 r1 r2 r3)
qed



subsection \<open>Prefix and extension\<close>

lemmas kui_eval =
  kui_findkey_def kui_findkey_loop.simps kui_findchar_def kui_reset_state_data_def
  kui_update_each_list_def kui_should_continue_looking_def kui_update_list_state_def
  kui_was_map_found_def kui_update_buffer_def prepend_extra.simps prepend_value.simps
  bufmax_cell_def context_of_def list_source_def

lemmas example_maps = map_a_X_def map_abc_Y_def map_a_a_def map_b_Y_def

lemma prefix_pass_a_d:
  "kui_findkey b (context_of [map_set_of [map_a_X, map_abc_Y]] [97, 100]) =
     Inr (0, True,
       \<lparr>kui_map_set_list =
          [\<lparr>map_list = [map_a_X, map_abc_Y], map_iter = Node 0, map_state = KUI_MAP_FOUND,
            is_found = True, map_iter_found = Node 0\<rparr>],
        buffer = [88, 100], callback = list_source, state_data = []\<rparr>)"
  by (simp add: kui_eval kui_ms_eval example_maps)

lemma prefix_pass_X:
  "kui_findkey b
     \<lparr>kui_map_set_list =
          [\<lparr>map_list = [map_a_X, map_abc_Y], map_iter = Node 0, map_state = KUI_MAP_FOUND,
            is_found = True, map_iter_found = Node 0\<rparr>],
        buffer = [88, 100], callback = list_source, state_data = []\<rparr> =
     Inr (88, False,
       \<lparr>kui_map_set_list =
          [\<lparr>map_list = [map_a_X, map_abc_Y], map_iter = Node 0,
            map_state = KUI_MAP_NOT_FOUND, is_found = False, map_iter_found = NULL\<rparr>],
        buffer = [100], callback = list_source, state_data = []\<rparr>)"
  by (simp add: kui_eval kui_ms_eval example_maps)

lemma prefix_pass_d:
  "kui_findkey b
       \<lparr>kui_map_set_list =
          [\<lparr>map_list = [map_a_X, map_abc_Y], map_iter = Node 0,
            map_state = KUI_MAP_NOT_FOUND, is_found = False, map_iter_found = NULL\<rparr>],
        buffer = [100], callback = list_source, state_data = []\<rparr> =
     Inr (100, False,
       \<lparr>kui_map_set_list =
          [\<lparr>map_list = [map_a_X, map_abc_Y], map_iter = Node 2,
            map_state = KUI_MAP_NOT_FOUND, is_found = False, map_iter_found = NULL\<rparr>],
        buffer = [], callback = list_source, state_data = []\<rparr>)"
  by (simp add: kui_eval kui_ms_eval example_maps)

lemma prefix_getkey_X:
  "kui_getkey b (context_of [map_set_of [map_a_X, map_abc_Y]] [97, 100]) =
     Some (Inr (88,
       \<lparr>kui_map_set_list =
          [\<lparr>map_list = [map_a_X, map_abc_Y], map_iter = Node 0,
            map_state = KUI_MAP_NOT_FOUND, is_found = False, map_iter_found = NULL\<rparr>],
        buffer = [100], callback = list_source, state_data = []\<rparr>))"
  apply (subst kui_getkey.simps)
  apply (simp only: prefix_pass_a_d sum.case prod.case)
  apply (subst kui_getkey.simps)
  apply (simp only: prefix_pass_X sum.case prod.case)
  apply simp
  done

lemma prefix_getkey_d:
  "kui_getkey b
       \<lparr>kui_map_set_list =
          [\<lparr>map_list = [map_a_X, map_abc_Y], map_iter = Node 0,
            map_state = KUI_MAP_NOT_FOUND, is_found = False, map_iter_found = NULL\<rparr>],
        buffer = [100], callback = list_source, state_data = []\<rparr> =
     Some (Inr (100,
       \<lparr>kui_map_set_list =
          [\<lparr>map_list = [map_a_X, map_abc_Y], map_iter = Node 2,
            map_state = KUI_MAP_NOT_FOUND, is_found = False, map_iter_found = NULL\<rparr>],
        buffer = [], callback = list_source, state_data = []\<rparr>))"
  apply (subst kui_getkey.simps)
  apply (simp only: prefix_pass_d sum.case prod.case)
  apply simp
  done

lemma numeral_2_Suc: "(2::nat) = Suc (Suc 0)" by simp

text \<open>
  C9. One map set with the maps \<open>a \<rightarrow> X\<close> and \<open>abc \<rightarrow> Y\<close>, and the input \<open>ad\<close>. Reading
  \<open>a\<close> latches the short match and the map set keeps looking; reading \<open>d\<close> ends the
  scan not found; finalize promotes the latched match of \<open>a \<rightarrow> X\<close>; the pass puts \<open>X\<close> and
  the pushed back \<open>d\<close> at the head of the buffer; and two successive calls of
  \<^verbatim>\<open>kui_getkey\<close> return \<open>X\<close> and then \<open>d\<close>, whatever the array \<^verbatim>\<open>bufmax\<close> held before.
\<close>
theorem prefix_vs_extension:
  "kui_ms_update_state (kui_ms_reset_state (map_set_of [map_a_X, map_abc_Y])) 97 0 =
     Inr \<lparr>map_list = [map_a_X, map_abc_Y], map_iter = Node 0,
          map_state = KUI_MAP_STILL_LOOKING, is_found = True, map_iter_found = Node 0\<rparr> \<and>
   kui_ms_update_state
     \<lparr>map_list = [map_a_X, map_abc_Y], map_iter = Node 0,
      map_state = KUI_MAP_STILL_LOOKING, is_found = True, map_iter_found = Node 0\<rparr> 100 1 =
     Inr \<lparr>map_list = [map_a_X, map_abc_Y], map_iter = Node 2,
          map_state = KUI_MAP_NOT_FOUND, is_found = True, map_iter_found = Node 0\<rparr> \<and>
   kui_ms_finalize_state
     \<lparr>map_list = [map_a_X, map_abc_Y], map_iter = Node 2,
      map_state = KUI_MAP_NOT_FOUND, is_found = True, map_iter_found = Node 0\<rparr> =
     \<lparr>map_list = [map_a_X, map_abc_Y], map_iter = Node 0,
      map_state = KUI_MAP_FOUND, is_found = True, map_iter_found = Node 0\<rparr> \<and>
   kui_findkey b (context_of [map_set_of [map_a_X, map_abc_Y]] [97, 100]) =
     Inr (0, True,
       \<lparr>kui_map_set_list =
          [\<lparr>map_list = [map_a_X, map_abc_Y], map_iter = Node 0, map_state = KUI_MAP_FOUND,
            is_found = True, map_iter_found = Node 0\<rparr>],
        buffer = [88, 100], callback = list_source, state_data = []\<rparr>) \<and>
   kui_getkeys 2 b (context_of [map_set_of [map_a_X, map_abc_Y]] [97, 100]) =
     Some [Inr 88, Inr 100]"
proof -
  have "kui_getkeys 2 b (context_of [map_set_of [map_a_X, map_abc_Y]] [97, 100]) =
     Some [Inr 88, Inr 100]"
    unfolding numeral_2_Suc kui_getkeys.simps prefix_getkey_X
    by (simp add: prefix_getkey_d)
  then show ?thesis
    using update_prefix_a update_prefix_ad prefix_pass_a_d
    by (simp add: kui_ms_finalize_state_def)
qed


subsection \<open>The buffer after a pass\<close>








subsection \<open>An empty map set\<close>

text \<open>Whatever the token and the source: the first update of an empty map set fails.\<close>

lemma empty_update_fails:
  "map_list ms = [] \<Longrightarrow> kui_ms_update_state (kui_ms_reset_state ms) key position = Inl Error"
  by (simp add: kui_ms_update_state_def kui_ms_reset_state_def std_list_begin_def
        kui_map_get_literal_key_def)

lemma empty_map_set_always_fails:
  assumes "kui_map_set_list kctx = [ms]" and "map_list ms = []"
    and "kui_findchar (kui_reset_state_data kctx) = (key, kctx1)" and "key \<noteq> 0"
  shows "kui_getkey b kctx = Some (Inl Error)"
proof -
  have l: "kui_map_set_list kctx1 = [kui_ms_reset_state ms]"
    using assms(1,3)
    by (auto simp: kui_findchar_def kui_reset_state_data_def split: list.splits prod.splits)
  have "kui_update_each_list kctx1 key 0 = Inl Error"
    using assms(2)
    by (simp add: kui_update_each_list_def l kui_ms_get_state_def empty_update_fails)
       (simp add: kui_ms_reset_state_def)
  then have "kui_findkey_loop (kui_reset_state_data kctx) (- 1) b = Inl Error"
    using assms(3,4) by (subst kui_findkey_loop.simps) simp
  then have "kui_findkey b kctx = Inl Error"
    by (simp add: kui_findkey_def)
  then show ?thesis
    by (subst kui_getkey.simps) simp
qed

lemma empty_map_set_pass:
  "kui_findkey b (context_of [map_set_of []] [97]) = Inl Error"
  by (simp add: kui_eval kui_ms_eval)

lemma no_map_set_pass:
  "kui_findkey b (context_of [] [97]) = Inr (97, False, context_of [] [])"
  by (simp add: kui_eval kui_ms_eval)

text \<open>
  C7 (the code fails it). A context whose only map set holds no map, with the token
  \<open>a\<close> waiting in the source: \<^verbatim>\<open>kui_getkey\<close> returns \<^verbatim>\<open>-1\<close> and not the token.
  \<^verbatim>\<open>kui_ms_reset_state\<close> leaves the empty map set in state \<open>STILL_LOOKING\<close> with its
  cursor at the end of the list, where \<^verbatim>\<open>kui_ms_update_state\<close> finds no map and fails.
  With no map set at all the same call returns the token.
\<close>
theorem empty_map_set_getkey:
  "kui_getkey b (context_of [map_set_of []] [97]) = Some (Inl Error) \<and>
   kui_getkey b (context_of [] [97]) = Some (Inr (97, context_of [] []))"
proof
  show "kui_getkey b (context_of [map_set_of []] [97]) = Some (Inl Error)"
    by (subst kui_getkey.simps) (simp only: empty_map_set_pass sum.case)
  show "kui_getkey b (context_of [] [97]) = Some (Inr (97, context_of [] []))"
    by (subst kui_getkey.simps) (simp only: no_map_set_pass sum.case prod.case, simp)
qed

subsection \<open>No data within the timeout\<close>

text \<open>
  Whatever the map sets: a pass whose first read yields no data returns the cell
  \<^verbatim>\<open>bufmax[0]\<close> as the array held it when the pass began.
\<close>

lemma reset_not_found:
  "was_map_found_each (map kui_ms_reset_state l) w m = Inr (w, m)"
  by (induction l) (simp_all add: kui_ms_get_state_def kui_ms_reset_state_def)

lemma finalize_reset: "kui_ms_finalize_state (kui_ms_reset_state ms) = kui_ms_reset_state ms"
  by (simp add: kui_ms_finalize_state_def kui_ms_reset_state_def)

lemma no_data_pass:
  assumes "buffer kctx = []" and "callback kctx (state_data kctx) = (0, s)"
  shows "kui_findkey b kctx = Inr (b 0, False, (kui_reset_state_data kctx)\<lparr>state_data := s\<rparr>)"
proof -
  let ?k = "(kui_reset_state_data kctx)\<lparr>state_data := s\<rparr>"
  have "kui_findchar (kui_reset_state_data kctx) = (0, ?k)"
    using assms by (simp add: kui_findchar_def kui_reset_state_data_def)
  then have loop: "kui_findkey_loop (kui_reset_state_data kctx) (- 1) b = Inr (?k, - 1, b)"
    by (subst kui_findkey_loop.simps) simp
  have fin: "kui_update_list_state ?k = ?k"
    by (simp add: kui_update_list_state_def kui_reset_state_data_def finalize_reset)
  have nf: "kui_was_map_found ?k = Inr (False, None)"
    by (simp add: kui_was_map_found_def kui_reset_state_data_def reset_not_found)
  have pe: "prepend_extra b 1 (- 1) buf = Inr buf" for buf
    by (subst prepend_extra.simps) simp
  have "kui_update_buffer ?k None False (- 1) b 0 = Inr (b 0, ?k)"
    by (simp add: kui_update_buffer_def pe)
  then show ?thesis
    by (simp add: kui_findkey_def loop fin nf)
qed

lemma idle_pass:
  "kui_findkey b (context_of [map_set_of [map_abc_Y]] []) =
     Inr (b 0, False,
          \<lparr>kui_map_set_list =
            [\<lparr>map_list = [map_abc_Y], map_iter = Node 0, map_state = KUI_MAP_STILL_LOOKING,
              is_found = False, map_iter_found = NULL\<rparr>],
           buffer = [], callback = list_source, state_data = []\<rparr>)"
  by (simp add: kui_eval kui_ms_eval)

lemma partial_pass_a:
  "kui_findkey b (context_of [map_set_of [map_abc_Y]] [97, 98]) =
     Inr (97, False,
          \<lparr>kui_map_set_list =
            [\<lparr>map_list = [map_abc_Y], map_iter = Node 0, map_state = KUI_MAP_STILL_LOOKING,
              is_found = False, map_iter_found = NULL\<rparr>],
           buffer = [98], callback = list_source, state_data = []\<rparr>)"
  by (simp add: kui_eval kui_ms_eval example_maps)

lemma partial_pass_b:
  "kui_findkey b
          \<lparr>kui_map_set_list =
            [\<lparr>map_list = [map_abc_Y], map_iter = Node 0, map_state = KUI_MAP_STILL_LOOKING,
              is_found = False, map_iter_found = NULL\<rparr>],
           buffer = [98], callback = list_source, state_data = []\<rparr> =
     Inr (98, False,
          \<lparr>kui_map_set_list =
            [\<lparr>map_list = [map_abc_Y], map_iter = Node 1, map_state = KUI_MAP_NOT_FOUND,
              is_found = False, map_iter_found = NULL\<rparr>],
           buffer = [], callback = list_source, state_data = []\<rparr>)"
  by (simp add: kui_eval kui_ms_eval example_maps)

lemma partial_pass_idle:
  "kui_findkey b
          \<lparr>kui_map_set_list =
            [\<lparr>map_list = [map_abc_Y], map_iter = Node 1, map_state = KUI_MAP_NOT_FOUND,
              is_found = False, map_iter_found = NULL\<rparr>],
           buffer = [], callback = list_source, state_data = []\<rparr> =
     Inr (b 0, False,
          \<lparr>kui_map_set_list =
            [\<lparr>map_list = [map_abc_Y], map_iter = Node 0, map_state = KUI_MAP_STILL_LOOKING,
              is_found = False, map_iter_found = NULL\<rparr>],
           buffer = [], callback = list_source, state_data = []\<rparr>)"
  by (simp add: kui_eval kui_ms_eval example_maps)

lemma numeral_3_Suc: "(3::nat) = Suc (Suc (Suc 0))" by simp

text \<open>
  C4 (the code fails it). When the first read of a pass yields no data, the loop is left
  with \<open>position = -1\<close> and \<^verbatim>\<open>kui_update_buffer\<close> returns \<^verbatim>\<open>bufmax[0]\<close>, a cell that the
  pass never wrote: \<^verbatim>\<open>kui_getkey\<close> returns what the array happened to hold, here 97,
  and not 0. With the map \<open>abc \<rightarrow> Y\<close> and the input \<open>ab\<close>, three calls return \<open>a\<close>, \<open>b\<close>
  and then the stale cell (here 7).
\<close>
theorem no_data_getkey:
  "kui_getkey (\<lambda>i. 97) (context_of [map_set_of [map_abc_Y]] []) =
     Some (Inr (97,
          \<lparr>kui_map_set_list =
            [\<lparr>map_list = [map_abc_Y], map_iter = Node 0, map_state = KUI_MAP_STILL_LOOKING,
              is_found = False, map_iter_found = NULL\<rparr>],
           buffer = [], callback = list_source, state_data = []\<rparr>)) \<and>
   kui_getkeys 3 (\<lambda>i. 7) (context_of [map_set_of [map_abc_Y]] [97, 98]) =
     Some [Inr 97, Inr 98, Inr 7]"
proof
  show "kui_getkey (\<lambda>i. 97) (context_of [map_set_of [map_abc_Y]] []) =
     Some (Inr (97,
          \<lparr>kui_map_set_list =
            [\<lparr>map_list = [map_abc_Y], map_iter = Node 0, map_state = KUI_MAP_STILL_LOOKING,
              is_found = False, map_iter_found = NULL\<rparr>],
           buffer = [], callback = list_source, state_data = []\<rparr>))"
    by (subst kui_getkey.simps) (simp only: idle_pass sum.case prod.case, simp)
  have g1: "kui_getkey (\<lambda>i. 7) (context_of [map_set_of [map_abc_Y]] [97, 98]) =
     Some (Inr (97,
          \<lparr>kui_map_set_list =
            [\<lparr>map_list = [map_abc_Y], map_iter = Node 0, map_state = KUI_MAP_STILL_LOOKING,
              is_found = False, map_iter_found = NULL\<rparr>],
           buffer = [98], callback = list_source, state_data = []\<rparr>))"
    by (subst kui_getkey.simps) (simp only: partial_pass_a sum.case prod.case, simp)
  have g2: "kui_getkey (\<lambda>i. 7)
          \<lparr>kui_map_set_list =
            [\<lparr>map_list = [map_abc_Y], map_iter = Node 0, map_state = KUI_MAP_STILL_LOOKING,
              is_found = False, map_iter_found = NULL\<rparr>],
           buffer = [98], callback = list_source, state_data = []\<rparr> =
     Some (Inr (98,
          \<lparr>kui_map_set_list =
            [\<lparr>map_list = [map_abc_Y], map_iter = Node 1, map_state = KUI_MAP_NOT_FOUND,
              is_found = False, map_iter_found = NULL\<rparr>],
           buffer = [], callback = list_source, state_data = []\<rparr>))"
    by (subst kui_getkey.simps) (simp only: partial_pass_b sum.case prod.case, simp)
  have g3: "kui_getkey (\<lambda>i. 7)
          \<lparr>kui_map_set_list =
            [\<lparr>map_list = [map_abc_Y], map_iter = Node 1, map_state = KUI_MAP_NOT_FOUND,
              is_found = False, map_iter_found = NULL\<rparr>],
           buffer = [], callback = list_source, state_data = []\<rparr> =
     Some (Inr (7,
          \<lparr>kui_map_set_list =
            [\<lparr>map_list = [map_abc_Y], map_iter = Node 0, map_state = KUI_MAP_STILL_LOOKING,
              is_found = False, map_iter_found = NULL\<rparr>],
           buffer = [], callback = list_source, state_data = []\<rparr>))"
    by (subst kui_getkey.simps) (simp only: partial_pass_idle sum.case prod.case, simp)
  show "kui_getkeys 3 (\<lambda>i. 7) (context_of [map_set_of [map_abc_Y]] [97, 98]) =
     Some [Inr 97, Inr 98, Inr 7]"
    unfolding numeral_3_Suc kui_getkeys.simps g1 option.case sum.case prod.case g2 g3
    by simp
qed

subsection \<open>Deregistering a map\<close>

lemma find_index_from_bounds:
  "find_index_from l compare i = Inr k \<Longrightarrow> i \<le> k \<and> k \<le> i + length l"
proof (induction l arbitrary: i)
  case Nil
  then show ?case by simp
next
  case (Cons x xs)
  then show ?case by (fastforce split: sum.splits if_splits)
qed

text \<open>
  Whatever the comparison yields: a call that returns leaves the first map of the list
  in its place.
\<close>

lemma deregister_keeps_first:
  assumes "kui_ms_deregister_map compare_raw kui_ms key = Inr (code, list)"
    and "map_list kui_ms \<noteq> []"
  shows "list \<noteq> [] \<and> hd list = hd (map_list kui_ms)"
proof -
  from assms(1) obtain k where
    k: "find_index_from (map_list kui_ms) (compare_raw key) 0 = Inr k"
    by (auto simp: kui_ms_deregister_map_def std_list_find_def split: sum.splits)
  show ?thesis
  proof (cases "k = 0 \<or> k \<ge> length (map_list kui_ms)")
    case True
    with assms k show ?thesis
      by (auto simp: kui_ms_deregister_map_def std_list_find_def std_list_begin_def
            split: if_splits)
  next
    case False
    then have b: "0 < k" "k < length (map_list kui_ms)" by auto
    with assms(1) k have l: "list = take k (map_list kui_ms) @ drop (Suc k) (map_list kui_ms)"
      by (auto simp: kui_ms_deregister_map_def std_list_find_def std_list_begin_def
            split: if_splits)
    from b assms(2) have "take k (map_list kui_ms) \<noteq> []" by auto
    moreover from b have "hd (take k (map_list kui_ms)) = hd (map_list kui_ms)"
      by (simp add: hd_take)
    ultimately show ?thesis unfolding l by simp
  qed
qed

text \<open>
  C6 (the code fails it). \<^verbatim>\<open>kui_ms_deregister_map\<close> takes the iterator that
  \<^verbatim>\<open>std_list_find\<close> returns for ``could not be found'' when it is the beginning of the
  list (\<^verbatim>\<open>kui_ms_register_map\<close> compares with the end), and it compares the raw string
  with the maps. So, whatever the comparison of the string with a map does, the first
  map of a map set is never removed. With the single map \<open>a \<rightarrow> X\<close> registered,
  deregistering \<open>a\<close> ends in a fault of the comparison, or returns \<^verbatim>\<open>-2\<close> (when the
  comparison yields 0) or \<^verbatim>\<open>-1\<close> (when it does not), and the map stays registered; never
  0. With \<open>a \<rightarrow> X\<close> and \<open>abc \<rightarrow> Y\<close> registered, \<open>a \<rightarrow> X\<close> stays as well, and the only map
  that the call can remove is the other one.
\<close>

theorem deregister_first_map:
  "(isl (kui_ms_deregister_map compare_raw (map_set_of [map_a_X]) ''a'') \<or>
    kui_ms_deregister_map compare_raw (map_set_of [map_a_X]) ''a'' = Inr (- 2, [map_a_X]) \<or>
    kui_ms_deregister_map compare_raw (map_set_of [map_a_X]) ''a'' = Inr (- 1, [map_a_X])) \<and>
   (isl (kui_ms_deregister_map compare_raw (map_set_of [map_a_X, map_abc_Y]) ''a'') \<or>
    kui_ms_deregister_map compare_raw (map_set_of [map_a_X, map_abc_Y]) ''a'' =
      Inr (- 2, [map_a_X, map_abc_Y]) \<or>
    kui_ms_deregister_map compare_raw (map_set_of [map_a_X, map_abc_Y]) ''a'' =
      Inr (- 1, [map_a_X, map_abc_Y]) \<or>
    kui_ms_deregister_map compare_raw (map_set_of [map_a_X, map_abc_Y]) ''a'' =
      Inr (0, [map_a_X])) \<and>
   kui_ms_deregister_map (\<lambda>key m. Inr 0) (map_set_of [map_a_X]) ''a'' =
     Inr (- 2, [map_a_X]) \<and>
   kui_ms_deregister_map (\<lambda>key m. Inl Invalid_Pointer) (map_set_of [map_a_X]) ''a'' =
     Inl Invalid_Pointer"
  by (auto simp: kui_ms_deregister_map_def std_list_find_def std_list_begin_def map_set_of_def
        split: sum.splits)

subsection \<open>A map whose value is its key\<close>

lemma self_map_first_pass:
  "kui_findkey b (context_of [map_set_of [map_a_a]] [97]) =
     Inr (0, True,
          \<lparr>kui_map_set_list =
            [\<lparr>map_list = [map_a_a], map_iter = Node 0, map_state = KUI_MAP_FOUND,
              is_found = True, map_iter_found = Node 0\<rparr>],
           buffer = [97], callback = list_source, state_data = []\<rparr>)"
  by (simp add: kui_eval kui_ms_eval example_maps)

lemma self_map_next_pass:
  "kui_findkey b
          \<lparr>kui_map_set_list =
            [\<lparr>map_list = [map_a_a], map_iter = Node 0, map_state = KUI_MAP_FOUND,
              is_found = True, map_iter_found = Node 0\<rparr>],
           buffer = [97], callback = list_source, state_data = []\<rparr> =
     Inr (0, True,
          \<lparr>kui_map_set_list =
            [\<lparr>map_list = [map_a_a], map_iter = Node 0, map_state = KUI_MAP_FOUND,
              is_found = True, map_iter_found = Node 0\<rparr>],
           buffer = [97], callback = list_source, state_data = []\<rparr>)"
  by (simp add: kui_eval kui_ms_eval example_maps)

lemma self_map_stuck:
  "kui_getkey b
          \<lparr>kui_map_set_list =
            [\<lparr>map_list = [map_a_a], map_iter = Node 0, map_state = KUI_MAP_FOUND,
              is_found = True, map_iter_found = Node 0\<rparr>],
           buffer = [97], callback = list_source, state_data = []\<rparr> = None"
proof (rule ccontr)
  let ?c = "\<lparr>kui_map_set_list =
            [\<lparr>map_list = [map_a_a], map_iter = Node 0, map_state = KUI_MAP_FOUND,
              is_found = True, map_iter_found = Node 0\<rparr>],
           buffer = [97], callback = list_source, state_data = []\<rparr>"
  assume "kui_getkey b ?c \<noteq> None"
  then obtain y where y: "kui_getkey b ?c = Some y" by auto
  have step: "kctx \<noteq> ?c"
    if ih: "\<And>b k y. getkey b k = Some y \<Longrightarrow> k \<noteq> ?c"
      and body: "(case kui_findkey b' kctx of
                    Inl f \<Rightarrow> Some (Inl f)
                  | Inr (key, map_found, kctx') \<Rightarrow>
                      if key = - 1 then Some (Inl Error)
                      else if map_found then getkey b' kctx'
                      else Some (Inr (key, kctx'))) = Some y'"
    for getkey :: "(nat \<Rightarrow> int) \<Rightarrow> int list kuictx \<Rightarrow> (fault + int \<times> int list kuictx) option"
      and b' kctx y'
  proof
    assume e: "kctx = ?c"
    from body[unfolded e] have "getkey b' ?c = Some y'"
      by (simp only: self_map_next_pass sum.case prod.case) simp
    with ih show False by blast
  qed
  have "kctx \<noteq> ?c" if "kui_getkey b' kctx = Some y'" for b' kctx y'
    by (rule kui_getkey.raw_induct[where P = "\<lambda>b kctx y. kctx \<noteq> ?c", OF step that])
  with y show False by blast
qed

text \<open>
  C2 (the code fails it). With the single map \<open>a \<rightarrow> a\<close> and the input \<open>a\<close>,
  \<^verbatim>\<open>kui_getkey\<close> does not return: every pass finds the map, puts its value \<open>a\<close> back
  at the head of the buffer and reports a match, and the \<^verbatim>\<open>do ... while\<close> loop starts
  the next pass on the same context.
\<close>
theorem self_map_getkey:
  "kui_getkey b (context_of [map_set_of [map_a_a]] [97]) = None"
  by (subst kui_getkey.simps)
     (simp only: self_map_first_pass sum.case prod.case, simp add: self_map_stuck)


subsection \<open>A pass of more than 1024 tokens\<close>

lemma long_tokens: "tokens (literal_key map_long) = replicate 1025 97"
proof -
  have "takeWhile (\<lambda>t. t \<noteq> 0) (replicate 1025 (97::int) @ [0]) =
        replicate 1025 97 @ takeWhile (\<lambda>t. t \<noteq> 0) [0]"
    by (rule takeWhile_append2) simp
  then show ?thesis by (simp add: tokens_def map_long_def)
qed

lemma long_update:
  assumes "0 \<le> position" "position \<le> 1023"
  shows "kui_ms_update_state
           \<lparr>map_list = [map_long], map_iter = Node 0, map_state = KUI_MAP_STILL_LOOKING,
            is_found = False, map_iter_found = NULL\<rparr> 97 position =
         Inr \<lparr>map_list = [map_long], map_iter = Node 0, map_state = KUI_MAP_STILL_LOOKING,
              is_found = False, map_iter_found = NULL\<rparr>"
proof -
  let ?ms = "\<lparr>map_list = [map_long], map_iter = Node 0, map_state = KUI_MAP_STILL_LOOKING,
            is_found = False, map_iter_found = NULL\<rparr>"
  have s: "sorted_by_literal_key (map_list ?ms)" by (simp add: sorted_by_literal_key_def)
  have w: "well_formed_keys (map_list ?ms)"
    by (simp add: well_formed_keys_def zero_terminated_def map_long_def)
  have a: "nat position \<le> length (tokens (literal_key (map_list ?ms ! 0)))"
    using assms by (simp add: long_tokens)
  have "kui_ms_update_state ?ms 97 position = Inr (spec_update ?ms 0 97 (nat position))"
    using s w _ _ _ assms(1) a by (rule update_refines) simp_all
  moreover have "spec_update ?ms 0 97 (nat position) = ?ms"
    using assms by (simp add: spec_update_def shares_prefix_def token_at_def long_tokens)
  ultimately show ?thesis by simp
qed

lemma long_loop:
  "- 1 \<le> position \<Longrightarrow> position \<le> 1023 \<Longrightarrow>
   kui_findkey_loop
     \<lparr>kui_map_set_list =
        [\<lparr>map_list = [map_long], map_iter = Node 0, map_state = KUI_MAP_STILL_LOOKING,
          is_found = False, map_iter_found = NULL\<rparr>],
      buffer = [], callback = endless_source 97, state_data = ()\<rparr> position b =
     Inl (Out_Of_Bounds_Write 1024)"
proof (induction "nat (1023 - position)" arbitrary: position b)
  case 0
  then have "position = 1023" by simp
  then show ?case
    by (subst kui_findkey_loop.simps) (simp add: kui_findchar_def endless_source_def)
next
  case (Suc n)
  then have p: "0 \<le> position + 1" "position + 1 \<le> 1023" by linarith+
  have rec: "kui_findkey_loop
     \<lparr>kui_map_set_list =
        [\<lparr>map_list = [map_long], map_iter = Node 0, map_state = KUI_MAP_STILL_LOOKING,
          is_found = False, map_iter_found = NULL\<rparr>],
      buffer = [], callback = endless_source 97, state_data = ()\<rparr> (position + 1)
      (b(nat (position + 1) := 97)) = Inl (Out_Of_Bounds_Write 1024)"
    using Suc.hyps(2) p by (intro Suc.hyps(1)) linarith+
  show ?case
    using p rec
    by (subst kui_findkey_loop.simps)
       (simp add: kui_findchar_def endless_source_def kui_update_each_list_def
          kui_ms_get_state_def long_update kui_should_continue_looking_def)
qed

text \<open>
  C3 (the code fails it). With a map whose key is 1025 tokens long and a source that
  keeps sending this token, the pass consumes 1024 tokens, stays \<open>STILL_LOOKING\<close>, and
  then stores the next token in \<^verbatim>\<open>bufmax[1024]\<close>, behind the end of the array: the code
  has no check of \<^verbatim>\<open>position\<close> against the size of \<^verbatim>\<open>bufmax\<close>, and no error is returned.
\<close>
theorem long_pass_overruns:
  "kui_findkey b context_long = Inl (Out_Of_Bounds_Write 1024) \<and>
   kui_getkey b context_long = Some (Inl (Out_Of_Bounds_Write 1024))"
proof -
  have r: "kui_reset_state_data context_long =
     \<lparr>kui_map_set_list =
        [\<lparr>map_list = [map_long], map_iter = Node 0, map_state = KUI_MAP_STILL_LOOKING,
          is_found = False, map_iter_found = NULL\<rparr>],
      buffer = [], callback = endless_source 97, state_data = ()\<rparr>"
    by (simp add: kui_reset_state_data_def context_long_def kui_ms_reset_state_def
          map_set_of_def std_list_begin_def)
  have f: "kui_findkey b context_long = Inl (Out_Of_Bounds_Write 1024)"
    unfolding kui_findkey_def r by (simp add: long_loop)
  moreover have "kui_getkey b context_long = Some (Inl (Out_Of_Bounds_Write 1024))"
    by (subst kui_getkey.simps) (simp only: f sum.case)
  ultimately show ?thesis by simp
qed


end
